theory Spec2Isabelle
  imports Main
begin

section \<open>JavaScript strings\<close>

text \<open>
  A JavaScript string is a sequence of UTF-16 code units; \<open>length\<close>, \<open>substring\<close>,
  indices and regular expressions without the \<open>u\<close> flag all count code units. A code
  unit is modelled as a natural number (below 65536 in the source), a string as a list
  of code units. \<open>str\<close> turns an ASCII literal into such a string.
\<close>

type_synonym jschar = nat

type_synonym jsstring = "nat list"

definition str :: "string \<Rightarrow> jsstring" where
  "str s = map of_char s"

text \<open>The characters \<open>\s\<close> and \<open>String.prototype.trim\<close> treat as white space
  (WhiteSpace and LineTerminator of ECMAScript).\<close>

definition isSpace :: "jschar \<Rightarrow> bool" where
  "isSpace c = (c \<in> {9, 10, 11, 12, 13, 32, 160, 5760, 8232, 8233, 8239, 8287, 12288, 65279}
      \<or> (8192 \<le> c \<and> c \<le> 8202))"

definition isDigit :: "jschar \<Rightarrow> bool" where
  "isDigit c = (48 \<le> c \<and> c \<le> 57)"

definition isWord :: "jschar \<Rightarrow> bool" where
  "isWord c = ((65 \<le> c \<and> c \<le> 90) \<or> (97 \<le> c \<and> c \<le> 122) \<or> isDigit c \<or> c = 95)"

text \<open>\<open>s.includes(t)\<close>, \<open>s.startsWith(t)\<close>, \<open>s.trim()\<close>, \<open>s.substring(0, n)\<close>
  and \<open>s.split('\n')\<close>.\<close>

fun startsWith :: "jsstring \<Rightarrow> jsstring \<Rightarrow> bool" where
  "startsWith s [] = True"
| "startsWith [] (p # ps) = False"
| "startsWith (c # cs) (p # ps) = (c = p \<and> startsWith cs ps)"

fun includes_str :: "jsstring \<Rightarrow> jsstring \<Rightarrow> bool" where
  "includes_str [] t = startsWith [] t"
| "includes_str (c # cs) t = (startsWith (c # cs) t \<or> includes_str cs t)"

definition trim :: "jsstring \<Rightarrow> jsstring" where
  "trim s = rev (dropWhile isSpace (rev (dropWhile isSpace s)))"

definition substring0 :: "jsstring \<Rightarrow> nat \<Rightarrow> jsstring" where
  "substring0 s n = take n s"

fun splitLines :: "jsstring \<Rightarrow> jsstring list" where
  "splitLines [] = [[]]"
| "splitLines (c # cs) =
     (if c = 10 then [] # splitLines cs
      else (case splitLines cs of l # ls \<Rightarrow> (c # l) # ls | [] \<Rightarrow> [[c]]))"

section \<open>Regular expressions\<close>

text \<open>
  The constructs the scanner's regular expression literals use: literal text, character
  classes (\<open>[...]\<close> and \<open>[^...]\<close> over characters, ranges, \<open>\w\<close>, \<open>\d\<close>, \<open>\s\<close>),
  greedy bounded repetition of a class (\<open>{m,n}\<close>, \<open>*\<close>, \<open>+\<close>), the greedy
  option \<open>?\<close>, the word boundary \<open>\b\<close>, sequence and alternative. Groups capture
  nothing the scanner reads (it uses \<open>match[0]\<close> and \<open>match.index\<close> only), so they
  are not represented.
\<close>

datatype atom = Ch char | Rg char char | ClsW | ClsD | ClsS

datatype cset = Pos "atom list" | Neg "atom list"

datatype regex =
    Lit string
  | One cset
  | Many nat "nat option" cset
  | Opt regex
  | WordB
  | Seq regex regex
  | Alt regex regex

text \<open>A sequence and an alternative of several parts.\<close>

fun cat :: "regex list \<Rightarrow> regex" where
  "cat [] = Lit []"
| "cat [r] = r"
| "cat (r # rs) = Seq r (cat rs)"

fun alts :: "regex list \<Rightarrow> regex" where
  "alts [] = One (Pos [])"
| "alts [r] = r"
| "alts (r # rs) = Alt r (alts rs)"

text \<open>
  Canonicalize of the \<open>i\<close> flag (no \<open>u\<close> flag): a character is compared through its
  upper case. Every pattern character of the scanner is ASCII or white space, and no
  character outside ASCII is ever canonicalized to an ASCII character or to white space,
  so only the ASCII letters need folding.
\<close>

definition upcase :: "jschar \<Rightarrow> jschar" where
  "upcase c = (if 97 \<le> c \<and> c \<le> 122 then c - 32 else c)"

definition downcase :: "jschar \<Rightarrow> jschar" where
  "downcase c = (if 65 \<le> c \<and> c \<le> 90 then c + 32 else c)"

fun inAtom :: "atom \<Rightarrow> jschar \<Rightarrow> bool" where
  "inAtom (Ch a) c = (c = of_char a)"
| "inAtom (Rg a b) c = (of_char a \<le> c \<and> c \<le> of_char b)"
| "inAtom ClsW c = isWord c"
| "inAtom ClsD c = isDigit c"
| "inAtom ClsS c = isSpace c"

definition inAtoms :: "bool \<Rightarrow> atom list \<Rightarrow> jschar \<Rightarrow> bool" where
  "inAtoms ic as c =
     (if ic then list_ex (\<lambda>a. inAtom a c \<or> inAtom a (upcase c) \<or> inAtom a (downcase c)) as
      else list_ex (\<lambda>a. inAtom a c) as)"

fun inClass :: "bool \<Rightarrow> cset \<Rightarrow> jschar \<Rightarrow> bool" where
  "inClass ic (Pos as) c = inAtoms ic as c"
| "inClass ic (Neg as) c = (\<not> inAtoms ic as c)"

definition sameChar :: "bool \<Rightarrow> char \<Rightarrow> jschar \<Rightarrow> bool" where
  "sameChar ic p c = (if ic then upcase (of_char p) = upcase c else of_char p = c)"

fun litAt :: "bool \<Rightarrow> string \<Rightarrow> jsstring \<Rightarrow> bool" where
  "litAt ic [] s = True"
| "litAt ic (p # ps) [] = False"
| "litAt ic (p # ps) (c # cs) = (sameChar ic p c \<and> litAt ic ps cs)"

definition wordBoundary :: "jsstring \<Rightarrow> nat \<Rightarrow> bool" where
  "wordBoundary s i =
     ((0 < i \<and> i \<le> length s \<and> isWord (s ! (i - 1))) \<noteq> (i < length s \<and> isWord (s ! i)))"

text \<open>
  The backtracking matcher. \<open>bt ic r s i\<close> lists the end positions of all the ways \<open>r\<close>
  matches \<open>s\<close> from position \<open>i\<close>, in the order in which ECMAScript's backtracking
  tries them (a greedy repetition tries the longest run first, an option tries its body
  first, an alternative its left branch first); the match the engine reports is the
  first of the list.
\<close>

fun bt :: "bool \<Rightarrow> regex \<Rightarrow> jsstring \<Rightarrow> nat \<Rightarrow> nat list" where
  "bt ic (Lit p) s i = (if litAt ic p (drop i s) then [i + length p] else [])"
| "bt ic (One cs) s i = (if i < length s \<and> inClass ic cs (s ! i) then [Suc i] else [])"
| "bt ic (Many m mx cs) s i =
     (let run = length (takeWhile (inClass ic cs) (drop i s));
          k = (case mx of None \<Rightarrow> run | Some n \<Rightarrow> min n run)
      in map (\<lambda>j. i + j) (rev [m ..< Suc k]))"
| "bt ic (Opt r) s i = bt ic r s i @ [i]"
| "bt ic WordB s i = (if wordBoundary s i then [i] else [])"
| "bt ic (Seq r1 r2) s i = concat (map (bt ic r2 s) (bt ic r1 s i))"
| "bt ic (Alt r1 r2) s i = bt ic r1 s i @ bt ic r2 s i"

text \<open>
  RegExpBuiltinExec: the first position from \<open>lastIndex\<close> on at which the pattern
  matches, with the end of the match found there. The first argument counts the
  positions still to try.
\<close>

fun execFrom :: "bool \<Rightarrow> regex \<Rightarrow> jsstring \<Rightarrow> nat \<Rightarrow> nat \<Rightarrow> (nat \<times> nat) option" where
  "execFrom ic r s 0 i = None"
| "execFrom ic r s (Suc n) i =
     (case bt ic r s i of
        e # _ \<Rightarrow> Some (i, e)
      | [] \<Rightarrow> execFrom ic r s n (Suc i))"

definition regexExec :: "bool \<Rightarrow> regex \<Rightarrow> jsstring \<Rightarrow> nat \<Rightarrow> (nat \<times> nat) option" where
  "regexExec ic r s lastIndex = execFrom ic r s (Suc (length s) - lastIndex) lastIndex"

text \<open>\<open>regex.test(s)\<close> and \<open>s.match(regex)\<close> for a regular expression without the
  \<open>g\<close> flag: is there a match anywhere in \<open>s\<close>.\<close>

definition regexTest :: "bool \<Rightarrow> regex \<Rightarrow> jsstring \<Rightarrow> bool" where
  "regexTest ic r s = (regexExec ic r s 0 \<noteq> None)"

text \<open>
  \<open>[...s.matchAll(regex)]\<close> for a regular expression with the \<open>g\<close> flag: the
  matches of repeated exec calls, each starting at the \<open>lastIndex\<close> the one before left
  (the end of its match, one further after an empty match), as pairs of the match's
  \<open>index\<close> and its end. \<open>matchText\<close> is \<open>match[0]\<close>. That the loop of
  \<open>matchAllFrom\<close> ends is proved below, from where a match can start and end.
\<close>

function matchAllFrom :: "bool \<Rightarrow> regex \<Rightarrow> jsstring \<Rightarrow> nat \<Rightarrow> (nat \<times> nat) list" where
  "matchAllFrom ic r s lastIndex =
     (case regexExec ic r s lastIndex of
        None \<Rightarrow> []
      | Some (i, e) \<Rightarrow> (i, e) # matchAllFrom ic r s (if e = i then Suc e else e))"
  by pat_completeness auto

definition matchAll :: "bool \<Rightarrow> regex \<Rightarrow> jsstring \<Rightarrow> (nat \<times> nat) list" where
  "matchAll ic r s = matchAllFrom ic r s 0"

definition matchText :: "jsstring \<Rightarrow> nat \<times> nat \<Rightarrow> jsstring" where
  "matchText s m = take (snd m - fst m) (drop (fst m) s)"

section \<open>The pattern registry\<close>

datatype severity = Critical | High | Medium | Low

text \<open>One entry of the \<open>patterns\<close> array; \<open>ignoreCase\<close> is the \<open>i\<close> flag of the
  entry's regular expression literal (every one of them has the \<open>g\<close> flag).\<close>

record pattern =
  name :: jsstring
  regex :: regex
  ignoreCase :: bool
  severity :: severity

definition quotes :: "atom list" where
  "quotes = [Ch (CHR 0x27), Ch (CHR 0x22)]"

definition alnum :: "atom list" where
  "alnum = [Rg CHR ''A'' CHR ''Z'', Rg CHR ''a'' CHR ''z'', Rg CHR ''0'' CHR ''9'']"

definition spaces :: regex where
  "spaces = Many 0 None (Pos [ClsS])"

definition colonOrEq :: regex where
  "colonOrEq = One (Pos [Ch CHR '':'', Ch CHR ''=''])"

definition awsAccessKeyRegex :: regex where
  "awsAccessKeyRegex =
     cat [Lit ''AKIA'', Many 16 (Some 16) (Pos [Rg CHR ''0'' CHR ''9'', Rg CHR ''A'' CHR ''Z''])]"

definition awsSecretKeyRegex :: regex where
  "awsSecretKeyRegex =
     cat [alts [Lit ''aws_secret_access_key'', Lit ''AWS_SECRET_ACCESS_KEY''],
          spaces, Lit ''='', spaces, Opt (One (Pos quotes)),
          Many 40 (Some 40) (Pos (alnum @ [Ch CHR ''/'', Ch CHR ''+'', Ch CHR ''=''])),
          Opt (One (Pos quotes))]"

definition githubTokenRegex :: regex where
  "githubTokenRegex =
     cat [Lit ''gh'',
          One (Pos [Ch CHR ''p'', Ch CHR ''o'', Ch CHR ''u'', Ch CHR ''s'', Ch CHR ''r'']),
          Lit ''_'', Many 36 None (Pos alnum)]"

definition genericApiKeyRegex :: regex where
  "genericApiKeyRegex =
     cat [WordB,
          alts [cat [Lit ''api'', Opt (One (Pos [Ch CHR ''_'', Ch CHR ''-''])), Lit ''key''],
                Lit ''apikey'', Lit ''api_token''],
          spaces, colonOrEq, spaces, One (Pos quotes),
          Many 20 None (Pos (alnum @ [Ch CHR ''_'', Ch CHR ''-''])),
          Opt (One (Pos quotes))]"

definition mongoRegex :: regex where
  "mongoRegex =
     cat [Lit ''mongodb'', Opt (Lit ''+srv''), Lit ''://'',
          Many 1 None (Neg (ClsS # quotes))]"

definition dbPasswordRegex :: regex where
  "dbPasswordRegex =
     cat [alts [Lit ''db_password'', Lit ''database_password'', Lit ''DB_PASSWORD''],
          spaces, colonOrEq, spaces, One (Pos quotes),
          Many 1 None (Neg quotes), One (Pos quotes)]"

definition genericPasswordRegex :: regex where
  "genericPasswordRegex =
     cat [alts [Lit ''password'', Lit ''pwd'', Lit ''pass''],
          spaces, colonOrEq, spaces, One (Pos quotes),
          Many 6 None (Neg (quotes @ [ClsS])), One (Pos quotes)]"

definition privateKeyRegex :: regex where
  "privateKeyRegex =
     cat [Lit ''-----BEGIN '',
          alts [Lit ''RSA'', Lit ''DSA'', Lit ''EC'', Lit ''OPENSSH'', Lit ''PRIVATE''],
          Lit '' PRIVATE KEY-----'']"

definition jwtRegex :: regex where
  "jwtRegex =
     cat [Lit ''eyJ'', Many 10 None (Pos (alnum @ [Ch CHR ''_'', Ch CHR ''-''])),
          Lit ''.'', Many 10 None (Pos (alnum @ [Ch CHR ''.'', Ch CHR ''_'', Ch CHR ''-'']))]"

definition slackTokenRegex :: regex where
  "slackTokenRegex =
     cat [Lit ''xox'',
          One (Pos [Ch CHR ''b'', Ch CHR ''a'', Ch CHR ''p'', Ch CHR ''r'', Ch CHR ''s'']),
          Lit ''-'', Many 10 (Some 13) (Pos [Rg CHR ''0'' CHR ''9'']),
          Lit ''-'', Many 10 (Some 13) (Pos [Rg CHR ''0'' CHR ''9'']),
          Lit ''-'', Many 24 None (Pos alnum)]"

definition googleApiKeyRegex :: regex where
  "googleApiKeyRegex =
     cat [Lit ''AIza'',
          Many 35 (Some 35)
            (Pos [Rg CHR ''0'' CHR ''9'', Rg CHR ''A'' CHR ''Z'', Rg CHR ''a'' CHR ''z'',
                  Ch CHR ''_'', Ch CHR ''-''])]"

definition stripeKeyRegex :: regex where
  "stripeKeyRegex =
     cat [alts [Lit ''sk'', Lit ''pk''], Lit ''_'', alts [Lit ''test'', Lit ''live''], Lit ''_'',
          Many 24 None (Pos [Rg CHR ''0'' CHR ''9'', Rg CHR ''a'' CHR ''z'', Rg CHR ''A'' CHR ''Z''])]"

definition privateIpRegex :: regex where
  "privateIpRegex =
     cat [WordB,
          alts [Lit ''10.'',
                cat [Lit ''172.'',
                     alts [cat [Lit ''1'', One (Pos [Rg CHR ''6'' CHR ''9''])],
                           cat [Lit ''2'', One (Pos [Rg CHR ''0'' CHR ''9''])],
                           cat [Lit ''3'', One (Pos [Ch CHR ''0'', Ch CHR ''1''])]],
                     Lit ''.''],
                Lit ''192.168.''],
          Many 1 (Some 3) (Pos [ClsD]), Lit ''.'', Many 1 (Some 3) (Pos [ClsD]), WordB]"

definition patterns :: "pattern list" where
  "patterns =
     [\<lparr>name = str ''AWS Access Key'', regex = awsAccessKeyRegex, ignoreCase = False,
        severity = Critical\<rparr>,
      \<lparr>name = str ''AWS Secret Key'', regex = awsSecretKeyRegex, ignoreCase = False,
        severity = Critical\<rparr>,
      \<lparr>name = str ''GitHub Token'', regex = githubTokenRegex, ignoreCase = False,
        severity = Critical\<rparr>,
      \<lparr>name = str ''Generic API Key'', regex = genericApiKeyRegex, ignoreCase = True,
        severity = High\<rparr>,
      \<lparr>name = str ''MongoDB Connection String'', regex = mongoRegex, ignoreCase = False,
        severity = Critical\<rparr>,
      \<lparr>name = str ''Database Password'', regex = dbPasswordRegex, ignoreCase = True,
        severity = Critical\<rparr>,
      \<lparr>name = str ''Generic Password'', regex = genericPasswordRegex, ignoreCase = True,
        severity = High\<rparr>,
      \<lparr>name = str ''Private Key'', regex = privateKeyRegex, ignoreCase = False,
        severity = Critical\<rparr>,
      \<lparr>name = str ''JWT Token'', regex = jwtRegex, ignoreCase = False,
        severity = Medium\<rparr>,
      \<lparr>name = str ''Slack Token'', regex = slackTokenRegex, ignoreCase = False,
        severity = High\<rparr>,
      \<lparr>name = str ''Google API Key'', regex = googleApiKeyRegex, ignoreCase = False,
        severity = Critical\<rparr>,
      \<lparr>name = str ''Stripe API Key'', regex = stripeKeyRegex, ignoreCase = False,
        severity = Critical\<rparr>,
      \<lparr>name = str ''Private IP Address'', regex = privateIpRegex, ignoreCase = False,
        severity = Low\<rparr>]"

section \<open>The email filter\<close>

definition emailRegex :: regex where
  "emailRegex =
     cat [WordB,
          Many 1 None (Pos (alnum @ [Ch CHR ''.'', Ch CHR ''_'', Ch CHR ''%'', Ch CHR ''+'', Ch CHR ''-''])),
          Lit ''@'',
          Many 1 None (Pos (alnum @ [Ch CHR ''.'', Ch CHR ''-''])),
          Lit ''.'',
          Many 2 None (Pos [Rg CHR ''A'' CHR ''Z'', Ch CHR ''|'', Rg CHR ''a'' CHR ''z'']),
          WordB]"

definition credentialRegex :: regex where
  "credentialRegex =
     cat [One (Pos [Ch CHR '':'', Ch CHR ''/'']),
          Many 0 None (Pos [ClsW, Ch CHR ''.'', Ch CHR ''-'']),
          Lit ''@'',
          Many 1 None (Pos [ClsW, Ch CHR ''.'', Ch CHR ''-''])]"

text \<open>The \<open>realEmailIndicators\<close> array; every entry has the \<open>i\<close> flag.\<close>

definition realEmailIndicators :: "regex list" where
  "realEmailIndicators =
     [cat [Lit ''email'', spaces, colonOrEq],
      Lit ''mailto:'',
      cat [Lit ''from'', spaces, colonOrEq],
      cat [Lit ''to'', spaces, colonOrEq],
      Lit ''recipient'',
      cat [Lit ''@'',
           alts [Lit ''gmail'', Lit ''yahoo'', Lit ''outlook'', Lit ''hotmail'', Lit ''icloud''],
           Lit ''.'']]"

definition isLikelyRealEmail :: "jsstring \<Rightarrow> jsstring \<Rightarrow> bool" where
  "isLikelyRealEmail email line =
     (if includes_str line (str ''mongodb'') \<or> includes_str line (str ''://'')
          \<or> includes_str line (str ''cluster'')
      then False
      else if regexTest False credentialRegex line then False
      else list_ex (\<lambda>pattern. regexTest True pattern line) realEmailIndicators)"

section \<open>Entropy\<close>

text \<open>
  A Number of the source is an IEEE 754 double. Which operations produce it, on which
  operands and in which order, is written in the source; how \<open>/\<close>, \<open>*\<close> and \<open>-\<close>
  round, and what \<open>Math.log2\<close> returns (ECMAScript leaves it to the implementation to
  approximate the logarithm), is the runtime's. The model keeps a Number as the
  operations of the source that produce it: \<open>NumberOf n\<close> is the integer \<open>n\<close>, the
  other constructors are the operators \<open>/\<close>, \<open>*\<close>, \<open>-\<close> and the call of
  \<open>Math.log2\<close>. Nothing is assumed of them: neither that they are exact nor that the
  order of the operands of a sum is irrelevant.
\<close>

datatype number =
  NumberOf nat
  | Div number number
  | Mul number number
  | Sub number number
  | MathLog2 number

text \<open>
  \<open>calculateEntropy\<close> counts the code units of its argument in the object
  \<open>frequencies\<close> and then runs over the object's keys with \<open>for ... in\<close>. The
  object is modelled by its own properties in the order of their creation;
  \<open>for ... in\<close> visits the integer keys first (here the digits \<open>0\<close> to \<open>9\<close>), in
  ascending order, and then the other keys in the order of their creation. In that order
  the loop subtracts \<open>p * Math.log2(p)\<close> from \<open>entropy\<close>, which starts at \<open>0\<close>.
\<close>

type_synonym frequencies = "(jschar \<times> nat) list"

fun bump :: "jschar \<Rightarrow> frequencies \<Rightarrow> frequencies" where
  "bump c [] = [(c, 1)]"
| "bump c ((k, n) # fr) = (if k = c then (k, n + 1) # fr else (k, n) # bump c fr)"

definition countChars :: "jsstring \<Rightarrow> frequencies" where
  "countChars s = fold bump s []"

definition forInOrder :: "frequencies \<Rightarrow> frequencies" where
  "forInOrder fr =
     sort_key fst (filter (\<lambda>kv. isDigit (fst kv)) fr) @ filter (\<lambda>kv. \<not> isDigit (fst kv)) fr"

definition calculateEntropy :: "jsstring \<Rightarrow> number" where
  "calculateEntropy s =
     fold (\<lambda>kv entropy.
             let p = Div (NumberOf (snd kv)) (NumberOf (length s))
             in Sub entropy (Mul p (MathLog2 p)))
       (forInOrder (countChars s)) (NumberOf 0)"

section \<open>The scan\<close>

record position =
  start :: nat
  end_pos :: nat

record finding =
  name :: jsstring
  value_str :: jsstring
  severity :: severity
  line :: nat
  position :: position
  entropy :: number

text \<open>
  The state the two nested \<open>forEach\<close> loops work on: the \<open>findings\<close> array they push
  to, and the console, to which the \<open>catch\<close> block writes a warning (the name of the
  pattern and the error caught).
\<close>

datatype jsError = JsError jsstring

type_synonym warnings = "(jsstring \<times> jsError) list"

record scanState =
  found :: "finding list"
  console :: warnings

definition inComment :: "jsstring \<Rightarrow> bool" where
  "inComment l =
     (startsWith (trim l) (str ''//'') \<or> startsWith (trim l) (str ''#'')
        \<or> startsWith (trim l) (str ''*''))"

text \<open>The body of \<open>matches.forEach\<close>: one match of a registry pattern.\<close>

definition pushMatch :: "pattern \<Rightarrow> jsstring \<Rightarrow> nat \<Rightarrow> nat \<times> nat \<Rightarrow> finding list \<Rightarrow> finding list" where
  "pushMatch p l index m fs =
     (if inComment l \<and> pattern.severity p = Low then fs
      else fs @
        [\<lparr>name = pattern.name p,
          value_str = substring0 (matchText l m) 50 @ (if length (matchText l m) > 50 then str ''...'' else []),
          severity = pattern.severity p,
          line = index + 1,
          position = \<lparr>start = fst m + 1, end_pos = fst m + length (matchText l m) + 1\<rparr>,
          entropy = calculateEntropy (matchText l m)\<rparr>])"

text \<open>
  The evaluation of a detector on a line, \<open>line.matchAll(regex)\<close> spread into an
  array, is the step of the scan that can fail inside a detector. It is a parameter
  \<open>ev\<close> of the scan: \<open>Inr\<close> is the array of matches, \<open>Inl\<close> an exception thrown
  by the evaluation.

  The \<open>try\<close> block around one pattern of the registry on one line: the \<open>catch\<close>
  block turns an exception thrown by the evaluation into a warning on the console, and
  the loop goes on with the next pattern.
\<close>

type_synonym evaluator = "bool \<Rightarrow> regex \<Rightarrow> jsstring \<Rightarrow> jsError + (nat \<times> nat) list"

definition scanPattern :: "evaluator \<Rightarrow> jsstring \<Rightarrow> nat \<Rightarrow> pattern \<Rightarrow> scanState \<Rightarrow> scanState" where
  "scanPattern ev l index p st =
     (case ev (ignoreCase p) (regex p) l of
        Inl error \<Rightarrow> st\<lparr>console := console st @ [(str ''Error processing pattern '' @ pattern.name p @ str '':'', error)]\<rparr>
      | Inr matches \<Rightarrow> st\<lparr>found := fold (pushMatch p l index) matches (found st)\<rparr>)"

text \<open>
  The body of \<open>emailMatches.forEach\<close>, and the email step of a line. The step is
  outside the \<open>try\<close> block: an exception thrown by its evaluation is caught nowhere
  in \<open>generateMockScanResponse\<close>, so it ends the \<open>forEach\<close> over the lines and the
  function, which then returns no response. \<open>Inl\<close> is that end: the exception, and
  what the console holds by then (the \<open>findings\<close> array is local and lost).
\<close>

definition pushEmail :: "jsstring \<Rightarrow> nat \<Rightarrow> nat \<times> nat \<Rightarrow> finding list \<Rightarrow> finding list" where
  "pushEmail l index m fs =
     (if isLikelyRealEmail (matchText l m) l
      then fs @
        [\<lparr>name = str ''Email Address (PII)'',
          value_str = matchText l m,
          severity = Low,
          line = index + 1,
          position = \<lparr>start = fst m + 1, end_pos = fst m + length (matchText l m) + 1\<rparr>,
          entropy = calculateEntropy (matchText l m)\<rparr>]
      else fs)"

definition scanEmail :: "evaluator \<Rightarrow> jsstring \<Rightarrow> nat \<Rightarrow> scanState \<Rightarrow> jsError \<times> warnings + scanState" where
  "scanEmail ev l index st =
     (case ev False emailRegex l of
        Inl error \<Rightarrow> Inl (error, console st)
      | Inr emailMatches \<Rightarrow> Inr (st\<lparr>found := fold (pushEmail l index) emailMatches (found st)\<rparr>))"

definition scanLine :: "evaluator \<Rightarrow> pattern list \<Rightarrow> jsstring \<Rightarrow> nat \<Rightarrow> scanState \<Rightarrow> jsError \<times> warnings + scanState" where
  "scanLine ev ps l index st = scanEmail ev l index (fold (scanPattern ev l index) ps st)"

fun forEachLine :: "evaluator \<Rightarrow> pattern list \<Rightarrow> jsstring list \<Rightarrow> nat \<Rightarrow> scanState \<Rightarrow> jsError \<times> warnings + scanState" where
  "forEachLine ev ps [] index st = Inr st"
| "forEachLine ev ps (l # ls) index st =
     (case scanLine ev ps l index st of
        Inl thrown \<Rightarrow> Inl thrown
      | Inr st' \<Rightarrow> forEachLine ev ps ls (Suc index) st')"

definition scanWith :: "evaluator \<Rightarrow> pattern list \<Rightarrow> jsstring \<Rightarrow> jsError \<times> warnings + scanState" where
  "scanWith ev ps content = forEachLine ev ps (splitLines content) 0 \<lparr>found = [], console = []\<rparr>"

text \<open>\<open>matchAll\<close> as ECMAScript defines it: on a regular expression with the \<open>g\<close>
  flag it throws nothing.\<close>

definition jsMatchAll :: evaluator where
  "jsMatchAll ic r s = Inr (matchAll ic r s)"

section \<open>The response\<close>

record severityCounts =
  critical :: nat
  high :: nat
  medium :: nat
  low :: nat

record scanResponse =
  success :: bool
  total_found :: nat
  severity_counts :: severityCounts
  findings :: "finding list"
  report :: jsstring

fun showNat :: "nat \<Rightarrow> jsstring" where
  "showNat n = (if n < 10 then [48 + n] else showNat (n div 10) @ [48 + n mod 10])"

declare showNat.simps [simp del]

fun severityName :: "severity \<Rightarrow> jsstring" where
  "severityName Critical = str ''critical''"
| "severityName High = str ''high''"
| "severityName Medium = str ''medium''"
| "severityName Low = str ''low''"

text \<open>\<open>toUpperCase\<close>, which the report applies to the four severity names only.\<close>

definition toUpperCase :: "jsstring \<Rightarrow> jsstring" where
  "toUpperCase s = map upcase s"

fun join :: "jsstring \<Rightarrow> jsstring list \<Rightarrow> jsstring" where
  "join sep [] = []"
| "join sep [x] = x"
| "join sep (x # y # ys) = x @ sep @ join sep (y # ys)"

definition findingLine :: "finding \<Rightarrow> jsstring" where
  "findingLine f =
     str ''['' @ toUpperCase (severityName (severity f)) @ str ''] '' @ name f
       @ str '' at line '' @ showNat (line f) @ str '': '' @ value_str f"

definition reportText :: "jsstring \<Rightarrow> nat \<Rightarrow> severityCounts \<Rightarrow> finding list \<Rightarrow> jsstring" where
  "reportText now totalFound counts fs =
     str ''Secret Scanner Report'' @ [10]
       @ str ''Generated: '' @ now @ [10]
       @ str ''Total Findings: '' @ showNat totalFound @ [10]
       @ [10]
       @ str ''Severity Breakdown:'' @ [10]
       @ str ''- Critical: '' @ showNat (critical counts) @ [10]
       @ str ''- High: '' @ showNat (high counts) @ [10]
       @ str ''- Medium: '' @ showNat (medium counts) @ [10]
       @ str ''- Low: '' @ showNat (low counts) @ [10]
       @ [10]
       @ str ''Findings:'' @ [10]
       @ join [10] (map findingLine fs) @ [10]"

text \<open>
  The part of \<open>generateMockScanResponse\<close> after the loops. \<open>now\<close> is what
  \<open>new Date().toISOString()\<close> returns when the report is built: the clock is the one
  input of the function besides \<open>content\<close>.
\<close>

definition buildResponse :: "jsstring \<Rightarrow> finding list \<Rightarrow> scanResponse" where
  "buildResponse now fs =
     (let severityCounts =
            \<lparr>critical = length (filter (\<lambda>f. severity f = Critical) fs),
              high = length (filter (\<lambda>f. severity f = High) fs),
              medium = length (filter (\<lambda>f. severity f = Medium) fs),
              low = length (filter (\<lambda>f. severity f = Low) fs)\<rparr>;
          totalFound = length fs
      in \<lparr>success = True,
          total_found = totalFound,
          severity_counts = severityCounts,
          findings = fs,
          report = reportText now totalFound severityCounts fs\<rparr>)"

text \<open>
  \<open>generateMockScanResponse\<close>, first with the evaluation of the detectors as a
  parameter, then with \<open>matchAll\<close> as ECMAScript defines it. A call returns a response
  (\<open>Inr\<close>) or ends with the exception that left the loops (\<open>Inl\<close>), which its
  callers catch and report as a failed scan.
\<close>

definition generateMockScanResponseWith :: "evaluator \<Rightarrow> jsstring \<Rightarrow> jsstring \<Rightarrow> jsError + scanResponse" where
  "generateMockScanResponseWith ev now content =
     (case scanWith ev patterns content of
        Inl thrown \<Rightarrow> Inl (fst thrown)
      | Inr st \<Rightarrow> Inr (buildResponse now (found st)))"

definition generateMockScanResponse :: "jsstring \<Rightarrow> jsstring \<Rightarrow> jsError + scanResponse" where
  "generateMockScanResponse now content = generateMockScanResponseWith jsMatchAll now content"

section \<open>Notions used in the statements\<close>

subsection \<open>What the loops collect\<close>

text \<open>
  The loops push to one array; when no exception leaves them, the findings they leave
  are the findings of each line, one line after the other, and on a line the findings of
  each pattern of the registry, one pattern after the other (none for a pattern whose
  evaluation threw), followed by the email findings.
\<close>

definition patternFindings :: "evaluator \<Rightarrow> jsstring \<Rightarrow> nat \<Rightarrow> pattern \<Rightarrow> finding list" where
  "patternFindings ev l index p =
     (case ev (ignoreCase p) (regex p) l of
        Inl error \<Rightarrow> []
      | Inr matches \<Rightarrow> concat (map (\<lambda>m. pushMatch p l index m []) matches))"

definition emailFindings :: "jsstring \<Rightarrow> nat \<Rightarrow> finding list" where
  "emailFindings l index = concat (map (\<lambda>m. pushEmail l index m []) (matchAll False emailRegex l))"

definition lineFindings :: "evaluator \<Rightarrow> pattern list \<Rightarrow> jsstring \<Rightarrow> nat \<Rightarrow> finding list" where
  "lineFindings ev ps l index = concat (map (patternFindings ev l index) ps) @ emailFindings l index"

fun linesFindings :: "evaluator \<Rightarrow> pattern list \<Rightarrow> jsstring list \<Rightarrow> nat \<Rightarrow> finding list" where
  "linesFindings ev ps [] index = []"
| "linesFindings ev ps (l # ls) index = lineFindings ev ps l index @ linesFindings ev ps ls (Suc index)"

subsection \<open>A detector whose evaluation throws\<close>


subsection \<open>The order of discovery\<close>

text \<open>
  The order in which the scan evaluates its detectors on a line: the registry in the order
  of the \<open>patterns\<close> array, then the email step. A finding is discovered before another
  when its line comes first, or on the same line its detector comes first, or for the
  same detector on the same line its match starts first.
\<close>

definition registryOrder :: "jsstring list" where
  "registryOrder = map pattern.name patterns @ [str ''Email Address (PII)'']"

fun indexOf :: "'a \<Rightarrow> 'a list \<Rightarrow> nat" where
  "indexOf x [] = 0"
| "indexOf x (y # ys) = (if x = y then 0 else Suc (indexOf x ys))"

definition detectorRank :: "jsstring \<Rightarrow> nat" where
  "detectorRank n = indexOf n registryOrder"

definition discoveredBefore :: "finding \<Rightarrow> finding \<Rightarrow> bool" where
  "discoveredBefore f g =
     (line f < line g
      \<or> (line f = line g
          \<and> (detectorRank (name f) < detectorRank (name g)
              \<or> (detectorRank (name f) = detectorRank (name g)
                  \<and> start (position f) < start (position g)))))"

subsection \<open>What a pattern matches\<close>

text \<open>
  The strings a regular expression without \<open>\b\<close> matches, read off the expression:
  the usual language of a regular expression. The backtracking matcher finds a match in
  a string exactly when a substring of it belongs to this language.
\<close>

fun wordBoundaryFree :: "regex \<Rightarrow> bool" where
  "wordBoundaryFree WordB = False"
| "wordBoundaryFree (Opt r) = wordBoundaryFree r"
| "wordBoundaryFree (Seq r1 r2) = (wordBoundaryFree r1 \<and> wordBoundaryFree r2)"
| "wordBoundaryFree (Alt r1 r2) = (wordBoundaryFree r1 \<and> wordBoundaryFree r2)"
| "wordBoundaryFree r = True"

fun accepts :: "bool \<Rightarrow> regex \<Rightarrow> jsstring \<Rightarrow> bool" where
  "accepts ic (Lit p) w = (length w = length p \<and> litAt ic p w)"
| "accepts ic (One cs) w = (\<exists>c. w = [c] \<and> inClass ic cs c)"
| "accepts ic (Many m mx cs) w =
     (m \<le> length w \<and> (case mx of None \<Rightarrow> True | Some n \<Rightarrow> length w \<le> n)
        \<and> list_all (inClass ic cs) w)"
| "accepts ic (Opt r) w = (w = [] \<or> accepts ic r w)"
| "accepts ic WordB w = False"
| "accepts ic (Seq r1 r2) w = (\<exists>u v. w = u @ v \<and> accepts ic r1 u \<and> accepts ic r2 v)"
| "accepts ic (Alt r1 r2) w = (accepts ic r1 w \<or> accepts ic r2 w)"

text \<open>\<open>occursIn P s\<close>: some substring of \<open>s\<close> satisfies \<open>P\<close>.\<close>

definition occursIn :: "(jsstring \<Rightarrow> bool) \<Rightarrow> jsstring \<Rightarrow> bool" where
  "occursIn P s = (\<exists>pre w post. s = pre @ w @ post \<and> P w)"

subsection \<open>The email rule\<close>

text \<open>
  What the tests of \<open>isLikelyRealEmail\<close> look for on a line, without the matcher:
  a credential text is \<open>:\<close> or \<open>/\<close>, characters of \<open>[\w.-]\<close>, \<open>@\<close> and at least
  one more character of \<open>[\w.-]\<close>; a keyword assignment is the keyword in any case,
  white space if any, and \<open>:\<close> or \<open>=\<close>; a provider address is \<open>@\<close>, one of the
  five provider names in any case, and a dot.
\<close>

definition hostChar :: "jschar \<Rightarrow> bool" where
  "hostChar c = (isWord c \<or> c = 46 \<or> c = 45)"

definition credentialText :: "jsstring \<Rightarrow> bool" where
  "credentialText w =
     (\<exists>c user host. w = [c] @ user @ str ''@'' @ host
        \<and> (c = 58 \<or> c = 47) \<and> list_all hostChar user \<and> host \<noteq> [] \<and> list_all hostChar host)"

definition sameTextAnyCase :: "string \<Rightarrow> jsstring \<Rightarrow> bool" where
  "sameTextAnyCase t w = (map upcase w = map upcase (str t))"

definition keywordAssignment :: "string \<Rightarrow> jsstring \<Rightarrow> bool" where
  "keywordAssignment kw w =
     (\<exists>k ws c. w = k @ ws @ [c] \<and> sameTextAnyCase kw k \<and> list_all isSpace ws \<and> (c = 58 \<or> c = 61))"

definition providerAddress :: "jsstring \<Rightarrow> bool" where
  "providerAddress w =
     (\<exists>d. w = str ''@'' @ d @ str ''.''
        \<and> list_ex (\<lambda>p. sameTextAnyCase p d) [''gmail'', ''yahoo'', ''outlook'', ''hotmail'', ''icloud''])"

definition emailAccepted :: "jsstring \<Rightarrow> bool" where
  "emailAccepted l =
     (\<not> occursIn (\<lambda>w. w = str ''mongodb'') l
      \<and> \<not> occursIn (\<lambda>w. w = str ''://'') l
      \<and> \<not> occursIn (\<lambda>w. w = str ''cluster'') l
      \<and> \<not> occursIn credentialText l
      \<and> (occursIn (keywordAssignment ''email'') l
          \<or> occursIn (sameTextAnyCase ''mailto:'') l
          \<or> occursIn (keywordAssignment ''from'') l
          \<or> occursIn (keywordAssignment ''to'') l
          \<or> occursIn (sameTextAnyCase ''recipient'') l
          \<or> occursIn providerAddress l))"

text \<open>
  Claim C3 words the last indicator as a property of the matched address: its domain,
  the text between its \<open>@\<close> and the next dot, is one of the five providers.
  \<open>claimedEmailAccepted\<close> is \<open>emailAccepted\<close> with that reading.
\<close>

definition addressDomain :: "jsstring \<Rightarrow> jsstring" where
  "addressDomain email = takeWhile (\<lambda>c. c \<noteq> 46) (drop 1 (dropWhile (\<lambda>c. c \<noteq> 64) email))"

definition claimedEmailAccepted :: "jsstring \<Rightarrow> jsstring \<Rightarrow> bool" where
  "claimedEmailAccepted email l =
     (\<not> occursIn (\<lambda>w. w = str ''mongodb'') l
      \<and> \<not> occursIn (\<lambda>w. w = str ''://'') l
      \<and> \<not> occursIn (\<lambda>w. w = str ''cluster'') l
      \<and> \<not> occursIn credentialText l
      \<and> (occursIn (keywordAssignment ''email'') l
          \<or> occursIn (sameTextAnyCase ''mailto:'') l
          \<or> occursIn (keywordAssignment ''from'') l
          \<or> occursIn (keywordAssignment ''to'') l
          \<or> occursIn (sameTextAnyCase ''recipient'') l
          \<or> list_ex (\<lambda>p. sameTextAnyCase p (addressDomain email))
               [''gmail'', ''yahoo'', ''outlook'', ''hotmail'', ''icloud'']))"

subsection \<open>What the JWT Token pattern matches\<close>

text \<open>
  What the JWT Token pattern matches: \<open>eyJ\<close>, at least ten characters of
  \<open>[A-Za-z0-9_-]\<close>, a dot, and at least ten characters of \<open>[A-Za-z0-9._-]\<close>. The
  second class contains the dot, so the text after the first dot may hold further dots
  or none.
\<close>

definition jwtChar :: "jschar \<Rightarrow> bool" where
  "jwtChar c = ((65 \<le> c \<and> c \<le> 90) \<or> (97 \<le> c \<and> c \<le> 122) \<or> (48 \<le> c \<and> c \<le> 57) \<or> c = 95 \<or> c = 45)"

definition jwtText :: "jsstring \<Rightarrow> bool" where
  "jwtText w =
     (\<exists>a b. w = str ''eyJ'' @ a @ str ''.'' @ b
        \<and> 10 \<le> length a \<and> list_all jwtChar a
        \<and> 10 \<le> length b \<and> list_all (\<lambda>c. jwtChar c \<or> c = 46) b)"

section \<open>Where a match ends, and the termination of \<open>matchAll\<close>\<close>

lemma set_bt_Many:
  "set (bt ic (Many m mx cs) s i) =
     {i + j | j. m \<le> j \<and> j \<le> length (takeWhile (inClass ic cs) (drop i s)) \<and> (case mx of None \<Rightarrow> True | Some n \<Rightarrow> j \<le> n)}"
  by (cases mx) (auto simp: Let_def)

lemma bt_ge: "e \<in> set (bt ic r s i) \<Longrightarrow> i \<le> e"
proof (induction r arbitrary: i e)
  case (Many m mx cs)
  then show ?case unfolding set_bt_Many by auto
next
  case (Seq r1 r2)
  then obtain m where "m \<in> set (bt ic r1 s i)" and "e \<in> set (bt ic r2 s m)"
    by auto
  with Seq.IH show ?case
    using le_trans by blast
qed (auto split: if_splits)

lemma litAt_length: "litAt ic p s \<Longrightarrow> length p \<le> length s"
  by (induction ic p s rule: litAt.induct) auto

lemma bt_le: "i \<le> length s \<Longrightarrow> e \<in> set (bt ic r s i) \<Longrightarrow> e \<le> length s"
proof (induction r arbitrary: i e)
  case (Lit p)
  from Lit.prems(2) have l: "litAt ic p (drop i s)" and e: "e = i + length p"
    by (simp_all split: if_splits)
  from litAt_length [OF l] have "length p \<le> length s - i" by simp
  with Lit.prems(1) e show ?case by simp
next
  case (One cs)
  from One.prems(2) show ?case by (simp split: if_splits)
next
  case (Many m mx cs)
  let ?run = "length (takeWhile (inClass ic cs) (drop i s))"
  have "?run \<le> length s - i"
    using length_takeWhile_le [of "inClass ic cs" "drop i s"] by simp
  moreover from Many.prems(2) obtain j where "e = i + j" "j \<le> ?run"
    unfolding set_bt_Many by blast
  ultimately show ?case using Many.prems(1) by simp
next
  case (Opt r)
  from Opt.prems(2) have "e \<in> set (bt ic r s i) \<or> e = i" by auto
  with Opt.IH [of i e] Opt.prems(1) show ?case by blast
next
  case WordB
  from WordB.prems show ?case by (simp split: if_splits)
next
  case (Seq r1 r2)
  from Seq.prems(2) obtain m where m: "m \<in> set (bt ic r1 s i)" "e \<in> set (bt ic r2 s m)"
    by auto
  from Seq.IH(1) [OF Seq.prems(1) m(1)] have "m \<le> length s" .
  from Seq.IH(2) [OF this m(2)] show ?case .
next
  case (Alt r1 r2)
  from Alt.prems(2) have "e \<in> set (bt ic r1 s i) \<or> e \<in> set (bt ic r2 s i)" by simp
  with Alt.IH(1) [of i e] Alt.IH(2) [of i e] Alt.prems(1) show ?case by blast
qed

lemma execFrom_Some:
  "execFrom ic r s n k = Some (i, e) \<Longrightarrow> k \<le> i \<and> i < k + n \<and> bt ic r s i \<noteq> [] \<and> e = hd (bt ic r s i)"
proof (induction n arbitrary: k)
  case 0
  then show ?case by simp
next
  case (Suc n)
  show ?case
  proof (cases "bt ic r s k")
    case Nil
    with Suc.prems have "execFrom ic r s n (Suc k) = Some (i, e)" by simp
    from Suc.IH [OF this] show ?thesis by auto
  next
    case (Cons a as)
    with Suc.prems show ?thesis by auto
  qed
qed

lemma regexExec_Some:
  assumes "regexExec ic r s k = Some (i, e)"
  shows "k \<le> i" and "i \<le> e" and "e \<le> length s" and "e \<in> set (bt ic r s i)"
proof -
  from assms have ex: "execFrom ic r s (Suc (length s) - k) k = Some (i, e)"
    by (simp add: regexExec_def)
  from execFrom_Some [OF ex] have a: "k \<le> i" and b: "i < k + (Suc (length s) - k)"
    and c: "bt ic r s i \<noteq> []" and d: "e = hd (bt ic r s i)"
    by auto
  from c d show mem: "e \<in> set (bt ic r s i)" by simp
  from a show "k \<le> i" .
  from mem show "i \<le> e" by (rule bt_ge)
  from a b have "i \<le> length s" by arith
  then show "e \<le> length s" using mem by (rule bt_le)
qed

termination matchAllFrom
proof (relation "measure (\<lambda>(ic, r, s, k). Suc (length s) - k)")
  show "wf (measure (\<lambda>(ic, r, s, k). Suc (length s) - k))" by simp
next
  fix ic r s lastIndex x2 i e
  assume "regexExec ic r s lastIndex = Some x2" and "(i, e) = x2"
  then have ex: "regexExec ic r s lastIndex = Some (i, e)" by simp
  from regexExec_Some [OF ex] have "lastIndex \<le> i" "i \<le> e" "e \<le> length s" by auto
  then show "((ic, r, s, if e = i then Suc e else e), (ic, r, s, lastIndex))
      \<in> measure (\<lambda>(ic, r, s, k). Suc (length s) - k)"
    by auto
qed

declare matchAllFrom.simps [simp del]

section \<open>Evaluating the scan on a given input\<close>

lemma execFrom_unfold:
  "execFrom ic r s n i =
     (if n = 0 then None
      else case bt ic r s i of e # _ \<Rightarrow> Some (i, e) | [] \<Rightarrow> execFrom ic r s (n - 1) (Suc i))"
  by (cases n) (auto split: list.splits)

lemmas regex_defs =
  awsAccessKeyRegex_def awsSecretKeyRegex_def githubTokenRegex_def genericApiKeyRegex_def
  mongoRegex_def dbPasswordRegex_def genericPasswordRegex_def privateKeyRegex_def jwtRegex_def
  slackTokenRegex_def googleApiKeyRegex_def stripeKeyRegex_def privateIpRegex_def
  emailRegex_def credentialRegex_def realEmailIndicators_def
  quotes_def alnum_def spaces_def colonOrEq_def

lemmas engine_eval =
  str_def inAtoms_def sameChar_def isDigit_def isWord_def isSpace_def wordBoundary_def
  upcase_def downcase_def execFrom_unfold regexExec_def regexTest_def matchAllFrom.simps
  matchAll_def matchText_def

lemmas response_eval = generateMockScanResponse_def generateMockScanResponseWith_def

lemmas scan_eval =
  scanWith_def scanLine_def scanEmail_def scanPattern_def pushMatch_def pushEmail_def
  jsMatchAll_def patterns_def inComment_def trim_def substring0_def isLikelyRealEmail_def

lemma scan_private_ip:
  "generateMockScanResponse now (str ''at 10.0.0.7'') =
     Inr (buildResponse now
       [\<lparr>name = str ''Private IP Address'', value_str = str ''10.0.0'', severity = Low, line = 1,
         position = \<lparr>start = 4, end_pos = 10\<rparr>, entropy = calculateEntropy (str ''10.0.0'')\<rparr>])"
proof -
  have "scanWith jsMatchAll patterns (str ''at 10.0.0.7'') =
     Inr \<lparr>found =
       [\<lparr>name = str ''Private IP Address'', value_str = str ''10.0.0'', severity = Low, line = 1,
         position = \<lparr>start = 4, end_pos = 10\<rparr>, entropy = calculateEntropy (str ''10.0.0'')\<rparr>],
       console = []\<rparr>"
    by (simp add: scan_eval engine_eval regex_defs)
  then show ?thesis by (simp add: response_eval)
qed

section \<open>The operations of \<open>calculateEntropy\<close>, in their order\<close>

text \<open>
  What \<open>calculateEntropy\<close> computes on a few strings. The empty string gives the
  initial \<open>0\<close>. For \<open>abb\<close> the term of \<open>a\<close> is subtracted first, for \<open>bba\<close>
  the term of \<open>b\<close>: the two calls perform the same operations in a different order.
  For \<open>a11\<close> and \<open>11a\<close> the calls perform the same operations in the same order,
  since \<open>for ... in\<close> visits the key \<open>1\<close> before the key \<open>a\<close> in both.
\<close>

lemma calculateEntropy_empty: "calculateEntropy [] = NumberOf 0"
  by (simp add: calculateEntropy_def countChars_def forInOrder_def)

lemma calculateEntropy_order:
  "calculateEntropy (str ''abb'')
     = Sub (Sub (NumberOf 0)
              (Mul (Div (NumberOf 1) (NumberOf 3)) (MathLog2 (Div (NumberOf 1) (NumberOf 3)))))
           (Mul (Div (NumberOf 2) (NumberOf 3)) (MathLog2 (Div (NumberOf 2) (NumberOf 3))))
   \<and> calculateEntropy (str ''bba'')
     = Sub (Sub (NumberOf 0)
              (Mul (Div (NumberOf 2) (NumberOf 3)) (MathLog2 (Div (NumberOf 2) (NumberOf 3)))))
           (Mul (Div (NumberOf 1) (NumberOf 3)) (MathLog2 (Div (NumberOf 1) (NumberOf 3))))
   \<and> calculateEntropy (str ''a11'') = calculateEntropy (str ''11a'')"
  by (simp add: calculateEntropy_def countChars_def forInOrder_def isDigit_def str_def Let_def)

section \<open>The findings the loops leave\<close>

lemma pushMatch_append: "pushMatch p l index m fs = fs @ pushMatch p l index m []"
  by (simp add: pushMatch_def)

lemma fold_pushMatch:
  "fold (pushMatch p l index) ms fs = fs @ concat (map (\<lambda>m. pushMatch p l index m []) ms)"
proof (induction ms arbitrary: fs)
  case Nil
  show ?case by simp
next
  case (Cons m ms)
  show ?case
    using pushMatch_append [of p l index m fs] by (simp add: Cons.IH)
qed

lemma pushEmail_append: "pushEmail l index m fs = fs @ pushEmail l index m []"
  by (simp add: pushEmail_def)

lemma fold_pushEmail:
  "fold (pushEmail l index) ms fs = fs @ concat (map (\<lambda>m. pushEmail l index m []) ms)"
proof (induction ms arbitrary: fs)
  case Nil
  show ?case by simp
next
  case (Cons m ms)
  show ?case
    using pushEmail_append [of l index m fs] by (simp add: Cons.IH)
qed

text \<open>With \<open>matchAll\<close> as ECMAScript defines it no evaluation throws: every step
  returns, the console stays as it is, and the findings are those of the lines.\<close>

lemma scanPattern_jsMatchAll:
  "scanPattern jsMatchAll l index p st = st\<lparr>found := found st @ patternFindings jsMatchAll l index p\<rparr>"
  by (simp add: scanPattern_def patternFindings_def jsMatchAll_def fold_pushMatch)

lemma fold_scanPattern_jsMatchAll:
  "fold (scanPattern jsMatchAll l index) ps st
     = st\<lparr>found := found st @ concat (map (patternFindings jsMatchAll l index) ps)\<rparr>"
  by (induction ps arbitrary: st) (simp_all add: scanPattern_jsMatchAll)

lemma scanLine_jsMatchAll:
  "scanLine jsMatchAll ps l index st = Inr (st\<lparr>found := found st @ lineFindings jsMatchAll ps l index\<rparr>)"
  by (simp add: scanLine_def scanEmail_def jsMatchAll_def fold_scanPattern_jsMatchAll fold_pushEmail
      lineFindings_def emailFindings_def)

lemma forEachLine_jsMatchAll:
  "forEachLine jsMatchAll ps ls index st
     = Inr (st\<lparr>found := found st @ linesFindings jsMatchAll ps ls index\<rparr>)"
  by (induction ls arbitrary: index st) (simp_all add: scanLine_jsMatchAll)

lemma scanWith_jsMatchAll:
  "scanWith jsMatchAll ps content
     = Inr \<lparr>found = linesFindings jsMatchAll ps (splitLines content) 0, console = []\<rparr>"
  by (simp add: scanWith_def forEachLine_jsMatchAll)

lemma response_returned:
  "generateMockScanResponse now content
     = Inr (buildResponse now (linesFindings jsMatchAll patterns (splitLines content) 0))"
  by (simp add: generateMockScanResponse_def generateMockScanResponseWith_def scanWith_jsMatchAll)

lemma findings_buildResponse: "findings (buildResponse now fs) = fs"
  by (simp add: buildResponse_def Let_def)

lemma set_linesFindings:
  "set (linesFindings ev ps ls index) = (\<Union>k < length ls. set (lineFindings ev ps (ls ! k) (index + k)))"
proof (induction ls arbitrary: index)
  case Nil
  show ?case by simp
next
  case (Cons l ls)
  have "(\<Union>k < Suc (length ls). set (lineFindings ev ps ((l # ls) ! k) (index + k)))
      = set (lineFindings ev ps l index) \<union> (\<Union>k < length ls. set (lineFindings ev ps (ls ! k) (Suc index + k)))"
    by (subst lessThan_Suc_eq_insert_0) (simp add: image_image)
  then show ?case by (simp add: Cons.IH)
qed

section \<open>The response is consistent with its findings\<close>

lemma count_list_severity:
  "count_list (map severity fs) x = length (filter (\<lambda>f. severity f = x) fs)"
  by (induction fs) auto

lemma severity_partition:
  "length (filter (\<lambda>f. severity f = Critical) fs) + length (filter (\<lambda>f. severity f = High) fs)
     + length (filter (\<lambda>f. severity f = Medium) fs) + length (filter (\<lambda>f. severity f = Low) fs)
   = length fs"
proof (induction fs)
  case Nil
  show ?case by simp
next
  case (Cons f fs)
  then show ?case by (cases "severity f") simp_all
qed

text \<open>
  Claim C1. Every scan of any input, at any clock reading, returns a response in which
  \<open>total_found\<close> is the number of findings; each of the four counts of
  \<open>severity_counts\<close> (the record has these four fields and no other) is the number of
  findings of that severity in the sequence; and the four counts add up to
  \<open>total_found\<close>.
\<close>

theorem response_counts_consistent:
  "\<exists>r. generateMockScanResponse now content = Inr r
     \<and> total_found r = length (findings r)
     \<and> critical (severity_counts r) = count_list (map severity (findings r)) Critical
     \<and> high (severity_counts r) = count_list (map severity (findings r)) High
     \<and> medium (severity_counts r) = count_list (map severity (findings r)) Medium
     \<and> low (severity_counts r) = count_list (map severity (findings r)) Low
     \<and> critical (severity_counts r) + high (severity_counts r) + medium (severity_counts r)
         + low (severity_counts r)
       = total_found r"
  unfolding response_returned
  by (simp add: buildResponse_def Let_def count_list_severity severity_partition)

theorem response_counts_consistent_witness:
  "\<exists>r. generateMockScanResponse (str ''T'') (str ''at 10.0.0.7'') = Inr r
     \<and> total_found r = 1 \<and> low (severity_counts r) = 1 \<and> critical (severity_counts r) = 0"
proof -
  from response_counts_consistent [of "str ''T''" "str ''at 10.0.0.7''"]
  obtain r where r: "generateMockScanResponse (str ''T'') (str ''at 10.0.0.7'') = Inr r"
    and t: "total_found r = length (findings r)"
    and l: "low (severity_counts r) = count_list (map severity (findings r)) Low"
    and c: "critical (severity_counts r) = count_list (map severity (findings r)) Critical"
    by blast
  from r have "map severity (findings r) = [Low]"
    unfolding scan_private_ip by (auto simp: findings_buildResponse)
  with t l c have "total_found r = 1 \<and> low (severity_counts r) = 1 \<and> critical (severity_counts r) = 0"
    using length_map [of severity "findings r"] by simp
  with r show ?thesis by blast
qed

section \<open>Scanning the same input twice\<close>

lemma scan_empty_input: "generateMockScanResponse now [] = Inr (buildResponse now [])"
proof -
  have "scanWith jsMatchAll patterns [] = Inr \<lparr>found = [], console = []\<rparr>"
    by (simp add: scan_eval engine_eval regex_defs)
  then show ?thesis by (simp add: response_eval)
qed

text \<open>
  Claim C2, as stated, fails: the report carries the time at which it was generated, so
  two scans of the same input at different clock readings return different report
  texts. Here the empty input is scanned at two instants one millisecond apart: both
  scans return the response built from no findings, and the two reports differ.
\<close>

theorem report_differs_with_clock_counterexample:
  "generateMockScanResponse (str ''2024-01-01T00:00:00.000Z'') []
     = Inr (buildResponse (str ''2024-01-01T00:00:00.000Z'') [])
   \<and> generateMockScanResponse (str ''2024-01-01T00:00:00.001Z'') []
     = Inr (buildResponse (str ''2024-01-01T00:00:00.001Z'') [])
   \<and> report (buildResponse (str ''2024-01-01T00:00:00.000Z'') [])
     \<noteq> report (buildResponse (str ''2024-01-01T00:00:00.001Z'') [])"
  by (simp add: scan_empty_input buildResponse_def Let_def reportText_def str_def)

text \<open>
  Claim C2, amended. Two scans of the same input both return, with the same findings in
  the same order, the same \<open>total_found\<close>, the same \<open>severity_counts\<close> and the same
  \<open>success\<close> flag whatever the clock reads; their reports are the same text around
  the timestamp of the \<open>Generated:\<close> line: the same heading before it and the same
  text after it.
\<close>

theorem scan_repeatable_up_to_timestamp:
  "\<exists>r1 r2. generateMockScanResponse now1 content = Inr r1
     \<and> generateMockScanResponse now2 content = Inr r2
     \<and> findings r1 = findings r2
     \<and> total_found r1 = total_found r2
     \<and> severity_counts r1 = severity_counts r2
     \<and> success r1 = success r2
     \<and> (\<exists>rest.
           report r1 = str ''Secret Scanner Report'' @ [10] @ str ''Generated: '' @ now1 @ rest
         \<and> report r2 = str ''Secret Scanner Report'' @ [10] @ str ''Generated: '' @ now2 @ rest)"
  unfolding response_returned
  by (simp add: buildResponse_def Let_def reportText_def)

theorem scan_repeatable_up_to_timestamp_witness:
  "\<exists>r1 r2. generateMockScanResponse (str ''2024-01-01T00:00:00.000Z'') (str ''at 10.0.0.7'') = Inr r1
     \<and> generateMockScanResponse (str ''2024-01-01T00:00:00.001Z'') (str ''at 10.0.0.7'') = Inr r2
     \<and> findings r1 = findings r2
     \<and> severity_counts r1 = severity_counts r2"
  using scan_repeatable_up_to_timestamp
    [of "str ''2024-01-01T00:00:00.000Z''" "str ''at 10.0.0.7''" "str ''2024-01-01T00:00:00.001Z''"]
  by blast

section \<open>A detector whose evaluation throws\<close>

text \<open>
  An exception thrown by the evaluation of a pattern of the registry is caught: the
  console gets a warning naming the pattern, the findings stay as they were, and the
  loop goes on.
\<close>

lemma registry_failure_logged_and_skipped:
  assumes "ev (ignoreCase p) (regex p) l = Inl error"
  shows "scanPattern ev l index p st
     = st\<lparr>console := console st @ [(str ''Error processing pattern '' @ pattern.name p @ str '':'', error)]\<rparr>"
  using assms by (simp add: scanPattern_def)

text \<open>
  An exception thrown by the evaluation of the email detector is not caught: it ends the
  line, the loop over the lines and the call, whatever the registry found before.
\<close>

lemma email_failure_ends_line:
  assumes "ev False emailRegex l = Inl error"
  shows "scanLine ev ps l index st = Inl (error, console (fold (scanPattern ev l index) ps st))"
  using assms by (simp add: scanLine_def scanEmail_def)

lemma email_failure_ends_lines:
  assumes "l \<in> set ls" and "isl (ev False emailRegex l)"
  shows "isl (forEachLine ev ps ls index st)"
  using assms
proof (induction ls arbitrary: index st)
  case Nil
  then show ?case by simp
next
  case (Cons x ls)
  show ?case
  proof (cases "scanLine ev ps x index st")
    case (Inl thrown)
    then show ?thesis by simp
  next
    case (Inr st')
    then have "\<not> isl (ev False emailRegex x)"
      by (auto simp: scanLine_def scanEmail_def split: sum.splits)
    with Cons.prems have "l \<in> set ls" by auto
    from Cons.IH [OF this Cons.prems(2)] Inr show ?thesis by simp
  qed
qed

lemma email_failure_ends_scan:
  assumes "l \<in> set (splitLines content)" and "isl (ev False emailRegex l)"
  shows "isl (generateMockScanResponseWith ev now content)"
proof -
  from email_failure_ends_lines [where ev = ev and ls = "splitLines content", OF assms]
  have "isl (scanWith ev patterns content)" by (simp add: scanWith_def)
  then show ?thesis
    by (auto simp: generateMockScanResponseWith_def split: sum.splits)
qed


section \<open>Email findings on comment lines and long email addresses\<close>

subsection \<open>What the registry loop does and the email step does not\<close>

lemma registry_low_suppressed_in_comment:
  "inComment l \<Longrightarrow> pattern.severity p = Low \<Longrightarrow> patternFindings ev l index p = []"
  by (simp add: patternFindings_def pushMatch_def split: sum.splits)

lemma registry_match_reported:
  assumes "\<not> (inComment l \<and> pattern.severity p = Low)"
    and "ev (ignoreCase p) (regex p) l = Inr ms"
  shows "map (\<lambda>f. start (position f)) (patternFindings ev l index p) = map (\<lambda>m. fst m + 1) ms"
proof -
  from assms(1) have one: "map (\<lambda>f. start (position f)) (pushMatch p l index m []) = [fst m + 1]" for m
    by (auto simp: pushMatch_def)
  have "map (\<lambda>f. start (position f)) (concat (map (\<lambda>m. pushMatch p l index m []) ms))
      = map (\<lambda>m. fst m + 1) ms"
    by (induction ms) (simp_all add: one)
  with assms(2) show ?thesis by (simp add: patternFindings_def)
qed

lemma registry_value_truncated:
  assumes "f \<in> set (patternFindings ev l index p)"
  shows "\<exists>m. value_str f = take 50 (matchText l m) @ (if 50 < length (matchText l m) then str ''...'' else [])
      \<and> entropy f = calculateEntropy (matchText l m)
      \<and> position f = \<lparr>start = fst m + 1, end_pos = fst m + length (matchText l m) + 1\<rparr>"
proof -
  from assms obtain m where "f \<in> set (pushMatch p l index m [])"
    by (auto simp: patternFindings_def split: sum.splits)
  then have "value_str f = take 50 (matchText l m) @ (if 50 < length (matchText l m) then str ''...'' else [])
      \<and> entropy f = calculateEntropy (matchText l m)
      \<and> position f = \<lparr>start = fst m + 1, end_pos = fst m + length (matchText l m) + 1\<rparr>"
    by (auto simp: pushMatch_def substring0_def split: if_splits)
  then show ?thesis by blast
qed

lemma email_value_whole_match:
  assumes "f \<in> set (emailFindings l index)"
  shows "\<exists>m. value_str f = matchText l m
      \<and> entropy f = calculateEntropy (matchText l m)
      \<and> position f = \<lparr>start = fst m + 1, end_pos = fst m + length (matchText l m) + 1\<rparr>"
proof -
  from assms obtain m where "f \<in> set (pushEmail l index m [])"
    by (auto simp: emailFindings_def)
  then have "value_str f = matchText l m
      \<and> entropy f = calculateEntropy (matchText l m)
      \<and> position f = \<lparr>start = fst m + 1, end_pos = fst m + length (matchText l m) + 1\<rparr>"
    by (auto simp: pushEmail_def split: if_splits)
  then show ?thesis by blast
qed

text \<open>
  Claim C4 (on a comment line every match of a low-severity detector is suppressed, and
  matches of higher severity are reported) holds for the registry, by the lemmas above,
  and fails for the Email Address (PII) detector. At the input \<open># to: a@b.cc\<close> the
  line is a comment line, the email match on it has severity low, and the scan returns
  the response with that finding: the comment check is part of \<open>pushMatch\<close>, the loop
  over the registry, and \<open>pushEmail\<close> does not make it.
\<close>

theorem comment_line_email_reported:
  "inComment (str ''# to: a@b.cc'')
   \<and> generateMockScanResponse (str ''T'') (str ''# to: a@b.cc'')
     = Inr (buildResponse (str ''T'')
              [\<lparr>name = str ''Email Address (PII)'', value_str = str ''a@b.cc'', severity = Low,
                line = 1, position = \<lparr>start = 7, end_pos = 13\<rparr>,
                entropy = calculateEntropy (str ''a@b.cc'')\<rparr>])"
proof -
  have "scanWith jsMatchAll patterns (str ''# to: a@b.cc'')
     = Inr \<lparr>found =
              [\<lparr>name = str ''Email Address (PII)'', value_str = str ''a@b.cc'', severity = Low,
                line = 1, position = \<lparr>start = 7, end_pos = 13\<rparr>,
                entropy = calculateEntropy (str ''a@b.cc'')\<rparr>],
            console = []\<rparr>"
    by (simp add: scan_eval engine_eval regex_defs)
  then have "generateMockScanResponse (str ''T'') (str ''# to: a@b.cc'')
     = Inr (buildResponse (str ''T'')
              [\<lparr>name = str ''Email Address (PII)'', value_str = str ''a@b.cc'', severity = Low,
                line = 1, position = \<lparr>start = 7, end_pos = 13\<rparr>,
                entropy = calculateEntropy (str ''a@b.cc'')\<rparr>])"
    by (simp add: response_eval)
  moreover have "inComment (str ''# to: a@b.cc'')"
    by (simp add: inComment_def trim_def engine_eval)
  ultimately show ?thesis by blast
qed

text \<open>
  Claim C5 (the value of every finding is the match cut to 50 characters, with a marker
  when it was longer, while entropy and position come from the whole match) holds for
  the registry, and for entropy and position of every finding, by the lemmas above; the
  value of an Email Address (PII) finding is not cut. At an input whose email address
  has 55 characters the scan returns the response with one finding, whose value is the
  whole address: the truncation is part of \<open>pushMatch\<close>, and \<open>pushEmail\<close> stores
  \<open>match[0]\<close> as it is.
\<close>

theorem long_email_value_not_truncated:
  "length (str ''aaaaaaaaaaaaaaaaaaaaaaaaaaaaaaaaaaaaaaaaaaaaa@gmail.com'') = 55
   \<and> generateMockScanResponse (str ''T'')
       (str ''aaaaaaaaaaaaaaaaaaaaaaaaaaaaaaaaaaaaaaaaaaaaa@gmail.com'')
     = Inr (buildResponse (str ''T'')
              [\<lparr>name = str ''Email Address (PII)'',
                value_str = str ''aaaaaaaaaaaaaaaaaaaaaaaaaaaaaaaaaaaaaaaaaaaaa@gmail.com'',
                severity = Low, line = 1, position = \<lparr>start = 1, end_pos = 56\<rparr>,
                entropy = calculateEntropy (str ''aaaaaaaaaaaaaaaaaaaaaaaaaaaaaaaaaaaaaaaaaaaaa@gmail.com'')\<rparr>])"
proof -
  have "scanWith jsMatchAll patterns (str ''aaaaaaaaaaaaaaaaaaaaaaaaaaaaaaaaaaaaaaaaaaaaa@gmail.com'')
     = Inr \<lparr>found =
              [\<lparr>name = str ''Email Address (PII)'',
                value_str = str ''aaaaaaaaaaaaaaaaaaaaaaaaaaaaaaaaaaaaaaaaaaaaa@gmail.com'',
                severity = Low, line = 1, position = \<lparr>start = 1, end_pos = 56\<rparr>,
                entropy = calculateEntropy (str ''aaaaaaaaaaaaaaaaaaaaaaaaaaaaaaaaaaaaaaaaaaaaa@gmail.com'')\<rparr>],
            console = []\<rparr>"
    by (simp add: scan_eval engine_eval regex_defs)
  then have "generateMockScanResponse (str ''T'')
       (str ''aaaaaaaaaaaaaaaaaaaaaaaaaaaaaaaaaaaaaaaaaaaaa@gmail.com'')
     = Inr (buildResponse (str ''T'')
              [\<lparr>name = str ''Email Address (PII)'',
                value_str = str ''aaaaaaaaaaaaaaaaaaaaaaaaaaaaaaaaaaaaaaaaaaaaa@gmail.com'',
                severity = Low, line = 1, position = \<lparr>start = 1, end_pos = 56\<rparr>,
                entropy = calculateEntropy (str ''aaaaaaaaaaaaaaaaaaaaaaaaaaaaaaaaaaaaaaaaaaaaa@gmail.com'')\<rparr>])"
    by (simp add: response_eval)
  moreover have "length (str ''aaaaaaaaaaaaaaaaaaaaaaaaaaaaaaaaaaaaaaaaaaaaa@gmail.com'') = 55"
    by (simp add: str_def)
  ultimately show ?thesis by blast
qed

section \<open>The order of the findings\<close>

lemma indexOf_nth: "distinct xs \<Longrightarrow> j < length xs \<Longrightarrow> indexOf (xs ! j) xs = j"
proof (induction xs arbitrary: j)
  case Nil
  then show ?case by simp
next
  case (Cons x xs)
  show ?case
  proof (cases j)
    case 0
    then show ?thesis by simp
  next
    case (Suc k)
    with Cons.prems have "xs ! k \<in> set xs" and "x \<notin> set xs" by auto
    then have "xs ! k \<noteq> x" by blast
    with Suc Cons show ?thesis by simp
  qed
qed

lemma distinct_registryOrder: "distinct registryOrder"
  by (simp add: registryOrder_def patterns_def str_def)

lemma length_registryOrder: "length registryOrder = Suc (length patterns)"
  by (simp add: registryOrder_def)

lemma rank_pattern: "j < length patterns \<Longrightarrow> detectorRank (pattern.name (patterns ! j)) = j"
proof -
  assume j: "j < length patterns"
  then have "registryOrder ! j = pattern.name (patterns ! j)"
    by (simp add: registryOrder_def nth_append)
  moreover have "indexOf (registryOrder ! j) registryOrder = j"
    using j by (intro indexOf_nth distinct_registryOrder) (simp add: length_registryOrder)
  ultimately show ?thesis by (simp add: detectorRank_def)
qed

lemma rank_email: "detectorRank (str ''Email Address (PII)'') = length patterns"
proof -
  have "registryOrder ! length patterns = str ''Email Address (PII)''"
    by (simp add: registryOrder_def nth_append)
  moreover have "indexOf (registryOrder ! length patterns) registryOrder = length patterns"
    by (intro indexOf_nth distinct_registryOrder) (simp add: length_registryOrder)
  ultimately show ?thesis by (simp add: detectorRank_def)
qed

subsection \<open>Matches come in the order of their start\<close>

lemma matchAllFrom_start_ge: "m \<in> set (matchAllFrom ic r s k) \<Longrightarrow> k \<le> fst m"
proof (induction ic r s k rule: matchAllFrom.induct)
  case (1 ic r s k)
  show ?case
  proof (cases "regexExec ic r s k")
    case None
    with "1.prems" show ?thesis by (simp add: matchAllFrom.simps [of ic r s k])
  next
    case (Some ie)
    obtain i e where ie: "ie = (i, e)" by (cases ie)
    with Some have ex: "regexExec ic r s k = Some (i, e)" by simp
    from regexExec_Some [OF ex] have ki: "k \<le> i" and ie': "i \<le> e" by auto
    from "1.prems" ex have "m = (i, e) \<or> m \<in> set (matchAllFrom ic r s (if e = i then Suc e else e))"
      by (simp add: matchAllFrom.simps [of ic r s k])
    then show ?thesis
    proof
      assume "m = (i, e)"
      with ki show ?thesis by simp
    next
      assume "m \<in> set (matchAllFrom ic r s (if e = i then Suc e else e))"
      from "1.IH" [OF Some ie [symmetric] this] have "(if e = i then Suc e else e) \<le> fst m" .
      with ki ie' show ?thesis by (auto split: if_splits)
    qed
  qed
qed

lemma matchAllFrom_sorted: "sorted_wrt (\<lambda>a b. fst a < fst b) (matchAllFrom ic r s k)"
proof (induction ic r s k rule: matchAllFrom.induct)
  case (1 ic r s k)
  show ?case
  proof (cases "regexExec ic r s k")
    case None
    then show ?thesis by (simp add: matchAllFrom.simps [of ic r s k])
  next
    case (Some ie)
    obtain i e where ie: "ie = (i, e)" by (cases ie)
    with Some have ex: "regexExec ic r s k = Some (i, e)" by simp
    from regexExec_Some [OF ex] have ie': "i \<le> e" by auto
    let ?k' = "if e = i then Suc e else e"
    have later: "i < fst m" if "m \<in> set (matchAllFrom ic r s ?k')" for m
      using matchAllFrom_start_ge [OF that] ie' by (auto split: if_splits)
    have "sorted_wrt (\<lambda>a b. fst a < fst b) (matchAllFrom ic r s ?k')"
      using "1.IH" [OF Some ie [symmetric]] .
    with later ex show ?thesis
      by (simp add: matchAllFrom.simps [of ic r s k])
  qed
qed

lemma matchAll_sorted: "sorted_wrt (\<lambda>a b. fst a < fst b) (matchAll ic r s)"
  by (simp add: matchAll_def matchAllFrom_sorted)

subsection \<open>The findings of a pattern, of a line, of the input\<close>

lemma sorted_wrt_concat_map:
  assumes "\<And>x. x \<in> set xs \<Longrightarrow> sorted_wrt P (F x)"
    and "\<And>i j a b. i < j \<Longrightarrow> j < length xs \<Longrightarrow> a \<in> set (F (xs ! i)) \<Longrightarrow> b \<in> set (F (xs ! j)) \<Longrightarrow> P a b"
  shows "sorted_wrt P (concat (map F xs))"
  using assms
proof (induction xs)
  case Nil
  show ?case by simp
next
  case (Cons x xs)
  have tl: "sorted_wrt P (concat (map F xs))"
  proof (rule Cons.IH)
    fix y assume "y \<in> set xs"
    then show "sorted_wrt P (F y)" using Cons.prems(1) by simp
  next
    fix i j a b
    assume "i < j" "j < length xs" "a \<in> set (F (xs ! i))" "b \<in> set (F (xs ! j))"
    then show "P a b"
      using Cons.prems(2) [of "Suc i" "Suc j" a b] by simp
  qed
  have cross: "P a b" if "a \<in> set (F x)" "b \<in> set (concat (map F xs))" for a b
  proof -
    from that(2) obtain y where "y \<in> set xs" "b \<in> set (F y)" by auto
    then obtain j where "j < length xs" "b \<in> set (F (xs ! j))"
      by (auto simp: in_set_conv_nth)
    with that(1) show ?thesis
      using Cons.prems(2) [of 0 "Suc j" a b] by simp
  qed
  from Cons.prems(1) have "sorted_wrt P (F x)" by simp
  with tl cross show ?case by (simp add: sorted_wrt_append)
qed

lemma pushMatch_single:
  "f \<in> set (pushMatch p l index m []) \<Longrightarrow>
     name f = pattern.name p \<and> severity f = pattern.severity p \<and> line f = Suc index
     \<and> start (position f) = Suc (fst m)"
  by (auto simp: pushMatch_def split: if_splits)

lemma pushEmail_single:
  "f \<in> set (pushEmail l index m []) \<Longrightarrow>
     name f = str ''Email Address (PII)'' \<and> severity f = Low \<and> line f = Suc index
     \<and> start (position f) = Suc (fst m)"
  by (auto simp: pushEmail_def split: if_splits)

lemma sorted_wrt_concat_singles:
  assumes "sorted_wrt (\<lambda>a b. fst a < fst b) ms"
    and "\<And>m f. f \<in> set (G m) \<Longrightarrow> start (position f) = Suc (fst m)"
    and "\<And>m. length (G m) \<le> 1"
  shows "sorted_wrt (\<lambda>f g. start (position f) < start (position g)) (concat (map G ms))"
proof (rule sorted_wrt_concat_map)
  fix m assume "m \<in> set ms"
  from assms(3) [of m] show "sorted_wrt (\<lambda>f g. start (position f) < start (position g)) (G m)"
    by (cases "G m") (auto simp: le_Suc_eq)
next
  fix i j a b
  assume ij: "i < j" "j < length ms" and a: "a \<in> set (G (ms ! i))" and b: "b \<in> set (G (ms ! j))"
  from assms(1) ij have "fst (ms ! i) < fst (ms ! j)"
    by (simp add: sorted_wrt_iff_nth_less)
  with assms(2) [OF a] assms(2) [OF b] show "start (position a) < start (position b)" by simp
qed

lemma patternFindings_props:
  "f \<in> set (patternFindings ev l index p) \<Longrightarrow>
     name f = pattern.name p \<and> severity f = pattern.severity p \<and> line f = Suc index"
  by (auto simp: patternFindings_def split: sum.splits dest: pushMatch_single)

lemma emailFindings_props:
  "f \<in> set (emailFindings l index) \<Longrightarrow>
     name f = str ''Email Address (PII)'' \<and> severity f = Low \<and> line f = Suc index"
  by (auto simp: emailFindings_def dest: pushEmail_single)

lemma patternFindings_sorted:
  "sorted_wrt (\<lambda>f g. start (position f) < start (position g)) (patternFindings jsMatchAll l index p)"
proof -
  have "sorted_wrt (\<lambda>f g. start (position f) < start (position g))
      (concat (map (\<lambda>m. pushMatch p l index m []) (matchAll (ignoreCase p) (regex p) l)))"
  proof (rule sorted_wrt_concat_singles [OF matchAll_sorted])
    fix m f assume "f \<in> set (pushMatch p l index m [])"
    then show "start (position f) = Suc (fst m)" by (simp add: pushMatch_single)
  next
    fix m show "length (pushMatch p l index m []) \<le> 1" by (simp add: pushMatch_def)
  qed
  then show ?thesis by (simp add: patternFindings_def jsMatchAll_def)
qed

lemma emailFindings_sorted:
  "sorted_wrt (\<lambda>f g. start (position f) < start (position g)) (emailFindings l index)"
  unfolding emailFindings_def
proof (rule sorted_wrt_concat_singles [OF matchAll_sorted])
  fix m f assume "f \<in> set (pushEmail l index m [])"
  then show "start (position f) = Suc (fst m)" by (simp add: pushEmail_single)
next
  fix m show "length (pushEmail l index m []) \<le> 1" by (simp add: pushEmail_def)
qed

lemma patternFindings_discovery:
  "sorted_wrt discoveredBefore (patternFindings jsMatchAll l index p)"
proof (rule sorted_wrt_mono_rel [OF _ patternFindings_sorted])
  fix f g
  assume "f \<in> set (patternFindings jsMatchAll l index p)"
    and "g \<in> set (patternFindings jsMatchAll l index p)"
    and "start (position f) < start (position g)"
  then show "discoveredBefore f g"
    using patternFindings_props [of f jsMatchAll l index p]
      patternFindings_props [of g jsMatchAll l index p]
    by (simp add: discoveredBefore_def)
qed

lemma emailFindings_discovery: "sorted_wrt discoveredBefore (emailFindings l index)"
proof (rule sorted_wrt_mono_rel [OF _ emailFindings_sorted])
  fix f g
  assume "f \<in> set (emailFindings l index)" and "g \<in> set (emailFindings l index)"
    and "start (position f) < start (position g)"
  then show "discoveredBefore f g"
    using emailFindings_props [of f l index] emailFindings_props [of g l index]
    by (simp add: discoveredBefore_def)
qed

lemma lineFindings_props:
  "f \<in> set (lineFindings ev ps l index) \<Longrightarrow> line f = Suc index"
  by (auto simp: lineFindings_def dest: patternFindings_props emailFindings_props)

lemma lineFindings_discovery:
  "sorted_wrt discoveredBefore (lineFindings jsMatchAll patterns l index)"
proof -
  let ?F = "patternFindings jsMatchAll l index"
  have reg: "sorted_wrt discoveredBefore (concat (map ?F patterns))"
  proof (rule sorted_wrt_concat_map)
    fix p show "sorted_wrt discoveredBefore (?F p)" by (rule patternFindings_discovery)
  next
    fix i j a b
    assume ij: "i < j" "j < length patterns"
      and a: "a \<in> set (?F (patterns ! i))" and b: "b \<in> set (?F (patterns ! j))"
    from ij have "detectorRank (pattern.name (patterns ! i)) = i"
      and "detectorRank (pattern.name (patterns ! j)) = j"
      by (simp_all add: rank_pattern)
    with patternFindings_props [OF a] patternFindings_props [OF b] ij
    show "discoveredBefore a b" by (simp add: discoveredBefore_def)
  qed
  have cross: "discoveredBefore a b"
    if a: "a \<in> set (concat (map ?F patterns))" and b: "b \<in> set (emailFindings l index)" for a b
  proof -
    from a obtain p where "p \<in> set patterns" "a \<in> set (?F p)" by auto
    then obtain j where j: "j < length patterns" and aj: "a \<in> set (?F (patterns ! j))"
      by (auto simp: in_set_conv_nth)
    from j have "detectorRank (pattern.name (patterns ! j)) = j" by (rule rank_pattern)
    with patternFindings_props [OF aj] emailFindings_props [OF b] j
    show ?thesis by (simp add: discoveredBefore_def rank_email)
  qed
  from reg emailFindings_discovery cross show ?thesis
    by (simp add: lineFindings_def sorted_wrt_append del: set_concat)
qed

lemma linesFindings_line: "f \<in> set (linesFindings ev ps ls index) \<Longrightarrow> index < line f"
proof (induction ls arbitrary: index)
  case Nil
  then show ?case by simp
next
  case (Cons l ls)
  from Cons.prems have "f \<in> set (lineFindings ev ps l index) \<or> f \<in> set (linesFindings ev ps ls (Suc index))"
    by simp
  then show ?case
  proof
    assume "f \<in> set (lineFindings ev ps l index)"
    then show ?thesis by (simp add: lineFindings_props)
  next
    assume "f \<in> set (linesFindings ev ps ls (Suc index))"
    from Cons.IH [OF this] show ?thesis by simp
  qed
qed

lemma linesFindings_discovery:
  "sorted_wrt discoveredBefore (linesFindings jsMatchAll patterns ls index)"
proof (induction ls arbitrary: index)
  case Nil
  show ?case by simp
next
  case (Cons l ls)
  have "discoveredBefore a b"
    if "a \<in> set (lineFindings jsMatchAll patterns l index)"
      and "b \<in> set (linesFindings jsMatchAll patterns ls (Suc index))" for a b
    using lineFindings_props [OF that(1)] linesFindings_line [OF that(2)]
    by (simp add: discoveredBefore_def)
  with Cons.IH [of "Suc index"] lineFindings_discovery [of l index] show ?case
    by (simp add: sorted_wrt_append)
qed

text \<open>
  Claim C7. Every scan returns a response whose findings are in discovery order: each
  finding comes before every later one by line number, then by the place of its detector
  in the registry (Email Address (PII) last), then by the start of its match; no two
  findings share line, detector and start.
\<close>

theorem findings_in_discovery_order:
  "\<exists>r. generateMockScanResponse now content = Inr r \<and> sorted_wrt discoveredBefore (findings r)"
  unfolding response_returned
  by (simp add: findings_buildResponse linesFindings_discovery)

lemma scan_two_lines:
  "map_sum id (\<lambda>r. map (\<lambda>f. (line f, name f, start (position f))) (findings r))
       (generateMockScanResponse now (str ''10.0.0.1 10.0.0.2'' @ [10] @ str ''x@gmail.com 10.0.0.3''))
     = Inr [(1, str ''Private IP Address'', 1), (1, str ''Private IP Address'', 10),
        (2, str ''Private IP Address'', 13), (2, str ''Email Address (PII)'', 1)]"
proof -
  have "map_sum id (\<lambda>st. map (\<lambda>f. (line f, name f, start (position f))) (found st))
       (scanWith jsMatchAll patterns (str ''10.0.0.1 10.0.0.2'' @ [10] @ str ''x@gmail.com 10.0.0.3''))
     = Inr [(1, str ''Private IP Address'', 1), (1, str ''Private IP Address'', 10),
        (2, str ''Private IP Address'', 13), (2, str ''Email Address (PII)'', 1)]"
    by (simp add: scan_eval engine_eval regex_defs)
  then show ?thesis
    by (auto simp: response_eval findings_buildResponse split: sum.splits)
qed

theorem findings_in_discovery_order_witness:
  "\<exists>r. generateMockScanResponse (str ''T'')
          (str ''10.0.0.1 10.0.0.2'' @ [10] @ str ''x@gmail.com 10.0.0.3'') = Inr r
     \<and> sorted_wrt discoveredBefore (findings r)
     \<and> map (\<lambda>f. (line f, name f, start (position f))) (findings r)
       = [(1, str ''Private IP Address'', 1), (1, str ''Private IP Address'', 10),
          (2, str ''Private IP Address'', 13), (2, str ''Email Address (PII)'', 1)]"
proof -
  from findings_in_discovery_order
    [of "str ''T''" "str ''10.0.0.1 10.0.0.2'' @ [10] @ str ''x@gmail.com 10.0.0.3''"]
  obtain r where r: "generateMockScanResponse (str ''T'')
          (str ''10.0.0.1 10.0.0.2'' @ [10] @ str ''x@gmail.com 10.0.0.3'') = Inr r"
    and s: "sorted_wrt discoveredBefore (findings r)"
    by blast
  from scan_two_lines [of "str ''T''"] r
  have "map (\<lambda>f. (line f, name f, start (position f))) (findings r)
       = [(1, str ''Private IP Address'', 1), (1, str ''Private IP Address'', 10),
          (2, str ''Private IP Address'', 13), (2, str ''Email Address (PII)'', 1)]"
    by simp
  with r s show ?thesis by (intro exI [of _ r]) simp
qed

section \<open>The matcher and the language of a pattern\<close>

lemma litAt_take: "litAt ic p s \<Longrightarrow> litAt ic p (take (length p) s)"
  by (induction ic p s rule: litAt.induct) auto

lemma litAt_of_take: "litAt ic p (take n s) \<Longrightarrow> litAt ic p s"
proof (induction ic p s arbitrary: n rule: litAt.induct)
  case (1 ic s)
  show ?case by simp
next
  case (2 ic p ps)
  then show ?case by simp
next
  case (3 ic p ps c cs)
  show ?case
  proof (cases n)
    case 0
    with "3.prems" show ?thesis by simp
  next
    case (Suc k)
    with "3.prems" have "sameChar ic p c" and "litAt ic ps (take k cs)" by simp_all
    with "3.IH" show ?thesis by simp
  qed
qed

lemma run_length: "j \<le> length (takeWhile P xs) \<longleftrightarrow> j \<le> length xs \<and> list_all P (take j xs)"
proof (induction xs arbitrary: j)
  case Nil
  show ?case by simp
next
  case (Cons x xs)
  show ?case
  proof (cases j)
    case 0
    then show ?thesis by simp
  next
    case (Suc k)
    with Cons [of k] show ?thesis by simp
  qed
qed

lemma take_between:
  "i \<le> m \<Longrightarrow> m \<le> e \<Longrightarrow> take (e - i) (drop i s) = take (m - i) (drop i s) @ take (e - m) (drop m s)"
proof -
  assume im: "i \<le> m" and me: "m \<le> e"
  then have "e - i = (m - i) + (e - m)" by simp
  then have "take (e - i) (drop i s) = take (m - i) (drop i s) @ take (e - m) (drop (m - i) (drop i s))"
    by (simp only: take_add)
  with im show ?thesis by simp
qed

lemma bt_accepts:
  "wordBoundaryFree r \<Longrightarrow> i \<le> length s \<Longrightarrow>
     e \<in> set (bt ic r s i) \<longleftrightarrow> (i \<le> e \<and> e \<le> length s \<and> accepts ic r (take (e - i) (drop i s)))"
proof (induction r arbitrary: i e)
  case (Lit p)
  show ?case
  proof
    assume "e \<in> set (bt ic (Lit p) s i)"
    then have l: "litAt ic p (drop i s)" and e: "e = i + length p"
      by (simp_all split: if_splits)
    from litAt_length [OF l] have "length p \<le> length s - i" by simp
    with e Lit.prems litAt_take [OF l]
    show "i \<le> e \<and> e \<le> length s \<and> accepts ic (Lit p) (take (e - i) (drop i s))"
      by simp
  next
    assume a: "i \<le> e \<and> e \<le> length s \<and> accepts ic (Lit p) (take (e - i) (drop i s))"
    then have "e - i = length p" and "i \<le> e" by auto
    then have e: "e = i + length p" by arith
    from a have "litAt ic p (take (e - i) (drop i s))" by simp
    then have "litAt ic p (drop i s)" by (rule litAt_of_take)
    with e show "e \<in> set (bt ic (Lit p) s i)" by simp
  qed
next
  case (One cs)
  show ?case
  proof
    assume "e \<in> set (bt ic (One cs) s i)"
    then have i: "i < length s" and c: "inClass ic cs (s ! i)" and e: "e = Suc i"
      by (simp_all split: if_splits)
    from i have "take 1 (drop i s) = [s ! i]"
      by (simp add: take_Suc_conv_app_nth [of 0] hd_drop_conv_nth)
    with i c e show "i \<le> e \<and> e \<le> length s \<and> accepts ic (One cs) (take (e - i) (drop i s))"
      by simp
  next
    assume a: "i \<le> e \<and> e \<le> length s \<and> accepts ic (One cs) (take (e - i) (drop i s))"
    then obtain c where w: "take (e - i) (drop i s) = [c]" and c: "inClass ic cs c" by auto
    from w have "length (take (e - i) (drop i s)) = 1" by simp
    with a have e: "e = Suc i" and i: "i < length s" by auto
    with w have "c = s ! i"
      by (simp add: take_Suc_conv_app_nth [of 0] hd_drop_conv_nth)
    with c e i show "e \<in> set (bt ic (One cs) s i)" by simp
  qed
next
  case (Many m mx cs)
  have len: "length (take (e - i) (drop i s)) = e - i" if "e \<le> length s"
    using that by simp
  show ?case
  proof
    assume "e \<in> set (bt ic (Many m mx cs) s i)"
    then obtain j where e: "e = i + j" and mj: "m \<le> j"
      and run: "j \<le> length (takeWhile (inClass ic cs) (drop i s))"
      and bnd: "case mx of None \<Rightarrow> True | Some n \<Rightarrow> j \<le> n"
      unfolding set_bt_Many by blast
    from run have "j \<le> length (drop i s)" and "list_all (inClass ic cs) (take j (drop i s))"
      by (simp_all add: run_length)
    with e mj bnd Many.prems
    show "i \<le> e \<and> e \<le> length s \<and> accepts ic (Many m mx cs) (take (e - i) (drop i s))"
      by (simp split: option.splits)
  next
    assume a: "i \<le> e \<and> e \<le> length s \<and> accepts ic (Many m mx cs) (take (e - i) (drop i s))"
    then have ie: "i \<le> e" and el: "e \<le> length s"
      and acc: "accepts ic (Many m mx cs) (take (e - i) (drop i s))"
      by blast+
    from acc len [OF el] have m: "m \<le> e - i"
      and bnd: "case mx of None \<Rightarrow> True | Some n \<Rightarrow> e - i \<le> n"
      and all: "list_all (inClass ic cs) (take (e - i) (drop i s))"
      by (simp_all split: option.splits)
    from el have "e - i \<le> length (drop i s)" by simp
    with all have "e - i \<le> length (takeWhile (inClass ic cs) (drop i s))"
      by (simp only: run_length)
    with ie m bnd have "\<exists>j. e = i + j \<and> m \<le> j \<and> j \<le> length (takeWhile (inClass ic cs) (drop i s))
        \<and> (case mx of None \<Rightarrow> True | Some n \<Rightarrow> j \<le> n)"
      by (intro exI [of _ "e - i"]) simp
    then show "e \<in> set (bt ic (Many m mx cs) s i)"
      unfolding set_bt_Many by blast
  qed
next
  case (Opt r)
  from Opt.prems have wf: "wordBoundaryFree r" by simp
  have empty: "take (e - i) (drop i s) = [] \<longleftrightarrow> e = i" if "i \<le> e" "e \<le> length s"
    using that by auto
  show ?case
    using Opt.IH [OF wf Opt.prems(2), of e] Opt.prems(2) empty by auto
next
  case WordB
  then show ?case by simp
next
  case (Seq r1 r2)
  from Seq.prems have wf1: "wordBoundaryFree r1" and wf2: "wordBoundaryFree r2" by simp_all
  show ?case
  proof
    assume "e \<in> set (bt ic (Seq r1 r2) s i)"
    then obtain m where m1: "m \<in> set (bt ic r1 s i)" and m2: "e \<in> set (bt ic r2 s m)"
      by auto
    from m1 Seq.IH(1) [OF wf1 Seq.prems(2), of m]
    have im: "i \<le> m" and ml: "m \<le> length s" and a1: "accepts ic r1 (take (m - i) (drop i s))"
      by simp_all
    from m2 Seq.IH(2) [OF wf2 ml, of e]
    have me: "m \<le> e" and el: "e \<le> length s" and a2: "accepts ic r2 (take (e - m) (drop m s))"
      by simp_all
    from take_between [OF im me, of s] a1 a2
    have "accepts ic (Seq r1 r2) (take (e - i) (drop i s))" by auto
    with im me el show "i \<le> e \<and> e \<le> length s \<and> accepts ic (Seq r1 r2) (take (e - i) (drop i s))"
      by simp
  next
    assume a: "i \<le> e \<and> e \<le> length s \<and> accepts ic (Seq r1 r2) (take (e - i) (drop i s))"
    then obtain u v where w: "take (e - i) (drop i s) = u @ v"
      and a1: "accepts ic r1 u" and a2: "accepts ic r2 v"
      by auto
    define m where "m = i + length u"
    from a have ie: "i \<le> e" and el: "e \<le> length s" by blast+
    from w have "length (take (e - i) (drop i s)) = length u + length v" by simp
    moreover from el have "length (take (e - i) (drop i s)) = e - i" by simp
    ultimately have lw: "e - i = length u + length v" by simp
    with ie el have im: "i \<le> m" and me: "m \<le> e" and ml: "m \<le> length s"
      by (simp_all add: m_def)
    from take_between [OF im me, of s] w
    have "take (m - i) (drop i s) @ take (e - m) (drop m s) = u @ v" by simp
    moreover have "length (take (m - i) (drop i s)) = length u"
      using ml by (simp add: m_def)
    ultimately have u: "take (m - i) (drop i s) = u" and v: "take (e - m) (drop m s) = v"
      by simp_all
    from a1 u im ml Seq.IH(1) [OF wf1 Seq.prems(2), of m] have "m \<in> set (bt ic r1 s i)"
      by simp
    moreover from a2 v me el Seq.IH(2) [OF wf2 ml, of e] have "e \<in> set (bt ic r2 s m)"
      by simp
    ultimately show "e \<in> set (bt ic (Seq r1 r2) s i)" by auto
  qed
next
  case (Alt r1 r2)
  from Alt.prems have wf1: "wordBoundaryFree r1" and wf2: "wordBoundaryFree r2" by simp_all
  show ?case
    using Alt.IH(1) [OF wf1 Alt.prems(2), of e] Alt.IH(2) [OF wf2 Alt.prems(2), of e] by auto
qed

lemma execFrom_None: "execFrom ic r s n k = None \<longleftrightarrow> (\<forall>i. k \<le> i \<and> i < k + n \<longrightarrow> bt ic r s i = [])"
proof (induction n arbitrary: k)
  case 0
  show ?case by auto
next
  case (Suc n)
  show ?case
  proof (cases "bt ic r s k")
    case Nil
    have "(\<forall>i. k \<le> i \<and> i < k + Suc n \<longrightarrow> bt ic r s i = [])
        \<longleftrightarrow> (\<forall>i. Suc k \<le> i \<and> i < Suc k + n \<longrightarrow> bt ic r s i = [])"
    proof
      assume "\<forall>i. k \<le> i \<and> i < k + Suc n \<longrightarrow> bt ic r s i = []"
      then show "\<forall>i. Suc k \<le> i \<and> i < Suc k + n \<longrightarrow> bt ic r s i = []" by simp
    next
      assume h: "\<forall>i. Suc k \<le> i \<and> i < Suc k + n \<longrightarrow> bt ic r s i = []"
      show "\<forall>i. k \<le> i \<and> i < k + Suc n \<longrightarrow> bt ic r s i = []"
      proof (intro allI impI)
        fix i assume "k \<le> i \<and> i < k + Suc n"
        then have "i = k \<or> (Suc k \<le> i \<and> i < Suc k + n)" by arith
        with h Nil show "bt ic r s i = []" by blast
      qed
    qed
    with Nil Suc.IH [of "Suc k"] show ?thesis by simp
  next
    case (Cons a as)
    then have "\<not> (\<forall>i. k \<le> i \<and> i < k + Suc n \<longrightarrow> bt ic r s i = [])"
      by (intro notI) (drule spec [of _ k], simp)
    with Cons show ?thesis by simp
  qed
qed

lemma regexTest_iff: "regexTest ic r s \<longleftrightarrow> (\<exists>i\<le>length s. bt ic r s i \<noteq> [])"
proof -
  have "regexTest ic r s \<longleftrightarrow> \<not> (\<forall>i. 0 \<le> i \<and> i < 0 + Suc (length s) \<longrightarrow> bt ic r s i = [])"
    unfolding regexTest_def regexExec_def by (simp only: execFrom_None diff_zero)
  also have "\<dots> \<longleftrightarrow> (\<exists>i\<le>length s. bt ic r s i \<noteq> [])"
    by (auto simp: less_Suc_eq_le)
  finally show ?thesis .
qed

lemma matchAll_empty_iff: "matchAll ic r s = [] \<longleftrightarrow> \<not> regexTest ic r s"
  by (simp add: matchAll_def matchAllFrom.simps [of ic r s 0] regexTest_def split: option.splits)

text \<open>The matcher finds a match in a string exactly when the string has a substring in
  the language of the pattern.\<close>

lemma regexTest_occursIn:
  assumes "wordBoundaryFree r"
  shows "regexTest ic r s \<longleftrightarrow> occursIn (accepts ic r) s"
proof
  assume "regexTest ic r s"
  then obtain i where i: "i \<le> length s" and ne: "bt ic r s i \<noteq> []"
    by (auto simp: regexTest_iff)
  then obtain e where "e \<in> set (bt ic r s i)" by (cases "bt ic r s i") auto
  with bt_accepts [OF assms i, of e ic]
  have ie: "i \<le> e" and el: "e \<le> length s" and acc: "accepts ic r (take (e - i) (drop i s))"
    by simp_all
  have "s = take i s @ take (e - i) (drop i s) @ drop e s"
  proof -
    have "drop i s = take (e - i) (drop i s) @ drop (e - i) (drop i s)"
      by (simp only: append_take_drop_id)
    also from ie have "drop (e - i) (drop i s) = drop e s" by simp
    finally have "take i s @ drop i s = take i s @ take (e - i) (drop i s) @ drop e s" by simp
    then show ?thesis by simp
  qed
  with acc show "occursIn (accepts ic r) s" unfolding occursIn_def by blast
next
  assume "occursIn (accepts ic r) s"
  then obtain pre w post where s: "s = pre @ w @ post" and acc: "accepts ic r w"
    unfolding occursIn_def by blast
  let ?i = "length pre" and ?e = "length pre + length w"
  from s have "take (?e - ?i) (drop ?i s) = w" by simp
  with acc s bt_accepts [OF assms, of ?i s ?e ic] have "?e \<in> set (bt ic r s ?i)" by simp
  then have "bt ic r s ?i \<noteq> []" by auto
  moreover from s have "?i \<le> length s" by simp
  ultimately show "regexTest ic r s" unfolding regexTest_iff by blast
qed

lemma includes_str_append: "includes_str s t \<longleftrightarrow> (\<exists>pre post. s = pre @ t @ post)"
proof -
  have sw: "startsWith s t \<longleftrightarrow> (\<exists>post. s = t @ post)" for s t :: jsstring
    by (induction s t rule: startsWith.induct) auto
  show ?thesis
  proof (induction s)
    case Nil
    show ?case by (simp add: sw)
  next
    case (Cons c cs)
    show ?case
    proof
      assume "includes_str (c # cs) t"
      then have "startsWith (c # cs) t \<or> includes_str cs t" by simp
      then show "\<exists>pre post. c # cs = pre @ t @ post"
      proof
        assume "startsWith (c # cs) t"
        then obtain post where "c # cs = t @ post" unfolding sw by blast
        then have "c # cs = [] @ t @ post" by simp
        then show ?thesis by blast
      next
        assume "includes_str cs t"
        then obtain pre post where "cs = pre @ t @ post" unfolding Cons.IH by blast
        then have "c # cs = (c # pre) @ t @ post" by simp
        then show ?thesis by blast
      qed
    next
      assume "\<exists>pre post. c # cs = pre @ t @ post"
      then obtain pre post where eq: "c # cs = pre @ t @ post" by blast
      show "includes_str (c # cs) t"
      proof (cases pre)
        case Nil
        with eq have "startsWith (c # cs) t" unfolding sw by auto
        then show ?thesis by simp
      next
        case (Cons p ps)
        with eq have "cs = ps @ t @ post" by simp
        then have "includes_str cs t" unfolding Cons.IH by blast
        then show ?thesis by simp
      qed
    qed
  qed
qed

lemma includes_str_occursIn: "includes_str s t \<longleftrightarrow> occursIn (\<lambda>w. w = t) s"
  by (simp add: includes_str_append occursIn_def)

lemma accepts_Lit: "accepts ic (Lit p) w \<longleftrightarrow> list_all2 (sameChar ic) p w"
proof (induction ic p w rule: litAt.induct)
  case (1 ic s)
  show ?case by auto
next
  case (2 ic p ps)
  show ?case by simp
next
  case (3 ic p ps c cs)
  then show ?case by auto
qed

lemma accepts_Lit_exact: "accepts False (Lit p) w \<longleftrightarrow> w = str p"
  unfolding accepts_Lit
proof (induction p arbitrary: w)
  case Nil
  show ?case by (simp add: str_def)
next
  case (Cons a p)
  show ?case
  proof (cases w)
    case Nil
    then show ?thesis by (simp add: str_def)
  next
    case (Cons c cs)
    with Cons.IH [of cs] show ?thesis by (auto simp: str_def sameChar_def)
  qed
qed

lemma accepts_Lit_anycase: "accepts True (Lit p) w \<longleftrightarrow> map upcase w = map upcase (str p)"
  unfolding accepts_Lit
proof (induction p arbitrary: w)
  case Nil
  show ?case by (simp add: str_def)
next
  case (Cons a p)
  show ?case
  proof (cases w)
    case Nil
    then show ?thesis by (simp add: str_def)
  next
    case (Cons c cs)
    with Cons.IH [of cs] show ?thesis by (auto simp: str_def sameChar_def)
  qed
qed

section \<open>The email filter, read as a rule on the line\<close>

lemma hostChar_class: "inClass False (Pos [ClsW, Ch CHR ''.'', Ch CHR ''-'']) = hostChar"
  by (rule ext) (auto simp: inAtoms_def hostChar_def)

lemma space_class_anycase: "inClass True (Pos [ClsS]) = isSpace"
  by (rule ext) (auto simp: inAtoms_def isSpace_def upcase_def downcase_def)

lemma accepts_spaces: "accepts True spaces w \<longleftrightarrow> list_all isSpace w"
  by (simp add: spaces_def space_class_anycase del: inClass.simps)

lemma colonOrEq_class: "inClass True (Pos [Ch CHR '':'', Ch CHR ''='']) c \<longleftrightarrow> c = 58 \<or> c = 61"
  by (auto simp: inAtoms_def upcase_def downcase_def split: if_splits)

lemma accepts_colonOrEq: "accepts True colonOrEq w \<longleftrightarrow> (\<exists>c. w = [c] \<and> (c = 58 \<or> c = 61))"
  by (simp add: colonOrEq_def colonOrEq_class del: inClass.simps)

lemma accepts_Lit_sameText: "accepts True (Lit t) = sameTextAnyCase t"
  by (rule ext) (simp only: accepts_Lit_anycase sameTextAnyCase_def)

lemma accepts_credential: "accepts False credentialRegex = credentialText"
proof (rule ext)
  fix w
  have one: "accepts False (One (Pos [Ch CHR '':'', Ch CHR ''/''])) u \<longleftrightarrow> (\<exists>c. u = [c] \<and> (c = 58 \<or> c = 47))" for u
    by (auto simp: inAtoms_def)
  have many0: "accepts False (Many 0 None (Pos [ClsW, Ch CHR ''.'', Ch CHR ''-''])) u \<longleftrightarrow> list_all hostChar u" for u
    by (simp add: hostChar_class del: inClass.simps)
  have many1: "accepts False (Many 1 None (Pos [ClsW, Ch CHR ''.'', Ch CHR ''-''])) u \<longleftrightarrow> u \<noteq> [] \<and> list_all hostChar u" for u
    by (cases u) (simp_all add: hostChar_class del: inClass.simps)
  have unf: "accepts False credentialRegex w \<longleftrightarrow>
      (\<exists>u v. w = u @ v \<and> (\<exists>c. u = [c] \<and> (c = 58 \<or> c = 47))
         \<and> (\<exists>u' v'. v = u' @ v' \<and> list_all hostChar u'
              \<and> (\<exists>u'' v''. v' = u'' @ v'' \<and> u'' = str ''@'' \<and> v'' \<noteq> [] \<and> list_all hostChar v'')))"
    unfolding credentialRegex_def cat.simps
    by (simp only: accepts.simps(6) one many0 many1 accepts_Lit_exact)
  show "accepts False credentialRegex w = credentialText w"
    unfolding credentialText_def
  proof
    assume "accepts False credentialRegex w"
    then obtain u v c u' v' u'' v'' where "w = u @ v" "u = [c]" "c = 58 \<or> c = 47"
      "v = u' @ v'" "list_all hostChar u'" "v' = u'' @ v''" "u'' = str ''@''"
      "v'' \<noteq> []" "list_all hostChar v''"
      unfolding unf by blast
    then have "w = [c] @ u' @ str ''@'' @ v'' \<and> (c = 58 \<or> c = 47) \<and> list_all hostChar u'
        \<and> v'' \<noteq> [] \<and> list_all hostChar v''"
      by simp
    then show "\<exists>c user host. w = [c] @ user @ str ''@'' @ host
        \<and> (c = 58 \<or> c = 47) \<and> list_all hostChar user \<and> host \<noteq> [] \<and> list_all hostChar host"
      by blast
  next
    assume "\<exists>c user host. w = [c] @ user @ str ''@'' @ host
        \<and> (c = 58 \<or> c = 47) \<and> list_all hostChar user \<and> host \<noteq> [] \<and> list_all hostChar host"
    then obtain c user host where w: "w = [c] @ user @ str ''@'' @ host"
      and c: "c = 58 \<or> c = 47" and u: "list_all hostChar user"
      and h: "host \<noteq> []" "list_all hostChar host"
      by blast
    have "\<exists>u'' v''. str ''@'' @ host = u'' @ v'' \<and> u'' = str ''@'' \<and> v'' \<noteq> [] \<and> list_all hostChar v''"
      using h by blast
    with u have "\<exists>u' v'. user @ str ''@'' @ host = u' @ v' \<and> list_all hostChar u'
        \<and> (\<exists>u'' v''. v' = u'' @ v'' \<and> u'' = str ''@'' \<and> v'' \<noteq> [] \<and> list_all hostChar v'')"
      by blast
    with c w show "accepts False credentialRegex w"
      unfolding unf by blast
  qed
qed

lemma accepts_keyword:
  "accepts True (cat [Lit kw, spaces, colonOrEq]) = keywordAssignment kw"
proof (rule ext)
  fix w
  have unf: "accepts True (cat [Lit kw, spaces, colonOrEq]) w \<longleftrightarrow>
      (\<exists>u v. w = u @ v \<and> sameTextAnyCase kw u
         \<and> (\<exists>u' v'. v = u' @ v' \<and> list_all isSpace u' \<and> (\<exists>c. v' = [c] \<and> (c = 58 \<or> c = 61))))"
    unfolding cat.simps
    by (simp only: accepts.simps(6) accepts_spaces accepts_colonOrEq accepts_Lit_sameText)
  show "accepts True (cat [Lit kw, spaces, colonOrEq]) w = keywordAssignment kw w"
    unfolding keywordAssignment_def unf by blast
qed

lemma accepts_provider:
  "accepts True (cat [Lit ''@'',
       alts [Lit ''gmail'', Lit ''yahoo'', Lit ''outlook'', Lit ''hotmail'', Lit ''icloud''],
       Lit ''.'']) = providerAddress"
proof (rule ext)
  fix w
  have at: "sameTextAnyCase ''@'' u \<longleftrightarrow> u = str ''@''" for u
    by (cases u) (auto simp: sameTextAnyCase_def str_def upcase_def split: if_splits)
  have dot: "sameTextAnyCase ''.'' u \<longleftrightarrow> u = str ''.''" for u
    by (cases u) (auto simp: sameTextAnyCase_def str_def upcase_def split: if_splits)
  have unf: "accepts True (cat [Lit ''@'',
       alts [Lit ''gmail'', Lit ''yahoo'', Lit ''outlook'', Lit ''hotmail'', Lit ''icloud''],
       Lit ''.'']) w \<longleftrightarrow>
      (\<exists>u v. w = u @ v \<and> u = str ''@''
         \<and> (\<exists>u' v'. v = u' @ v'
              \<and> list_ex (\<lambda>p. sameTextAnyCase p u') [''gmail'', ''yahoo'', ''outlook'', ''hotmail'', ''icloud'']
              \<and> v' = str ''.''))"
    unfolding cat.simps alts.simps
    by (simp only: accepts.simps(6,7) accepts_Lit_sameText at dot list_ex_Nil_iff list_ex_Cons_iff) blast
  show "accepts True (cat [Lit ''@'',
       alts [Lit ''gmail'', Lit ''yahoo'', Lit ''outlook'', Lit ''hotmail'', Lit ''icloud''],
       Lit ''.'']) w = providerAddress w"
    unfolding providerAddress_def unf by blast
qed

lemma test_keyword:
  "regexTest True (cat [Lit kw, spaces, colonOrEq]) l \<longleftrightarrow> occursIn (keywordAssignment kw) l"
proof -
  have "wordBoundaryFree (cat [Lit kw, spaces, colonOrEq])"
    by (simp add: spaces_def colonOrEq_def)
  from regexTest_occursIn [OF this] show ?thesis by (simp only: accepts_keyword)
qed

lemma test_literal: "regexTest True (Lit t) l \<longleftrightarrow> occursIn (sameTextAnyCase t) l"
proof -
  have "wordBoundaryFree (Lit t)" by simp
  from regexTest_occursIn [OF this] show ?thesis by (simp only: accepts_Lit_sameText)
qed

lemma test_provider:
  "regexTest True (cat [Lit ''@'',
       alts [Lit ''gmail'', Lit ''yahoo'', Lit ''outlook'', Lit ''hotmail'', Lit ''icloud''],
       Lit ''.'']) l \<longleftrightarrow> occursIn providerAddress l"
proof -
  have "wordBoundaryFree (cat [Lit ''@'',
       alts [Lit ''gmail'', Lit ''yahoo'', Lit ''outlook'', Lit ''hotmail'', Lit ''icloud''],
       Lit ''.''])"
    by simp
  from regexTest_occursIn [OF this] show ?thesis by (simp only: accepts_provider)
qed

lemma test_credential: "regexTest False credentialRegex l \<longleftrightarrow> occursIn credentialText l"
proof -
  have "wordBoundaryFree credentialRegex" by (simp add: credentialRegex_def)
  from regexTest_occursIn [OF this] show ?thesis by (simp only: accepts_credential)
qed

text \<open>\<open>isLikelyRealEmail\<close> decides by the line alone; its first argument, the matched
  address, is not used.\<close>

lemma isLikelyRealEmail_emailAccepted: "isLikelyRealEmail email l \<longleftrightarrow> emailAccepted l"
proof -
  have ind: "list_ex (\<lambda>pattern. regexTest True pattern l) realEmailIndicators \<longleftrightarrow>
      (occursIn (keywordAssignment ''email'') l
          \<or> occursIn (sameTextAnyCase ''mailto:'') l
          \<or> occursIn (keywordAssignment ''from'') l
          \<or> occursIn (keywordAssignment ''to'') l
          \<or> occursIn (sameTextAnyCase ''recipient'') l
          \<or> occursIn providerAddress l)"
    unfolding realEmailIndicators_def
    by (simp only: list_ex_Nil_iff list_ex_Cons_iff test_keyword test_literal test_provider simp_thms)
  show ?thesis
    unfolding isLikelyRealEmail_def emailAccepted_def
    by (simp only: includes_str_occursIn ind test_credential) (simp split: if_splits)
qed

subsection \<open>Email findings of a scan\<close>

lemma registry_name_not_email: "p \<in> set patterns \<Longrightarrow> pattern.name p \<noteq> str ''Email Address (PII)''"
  by (auto simp: patterns_def str_def)

lemma email_findings_of_line:
  assumes "f \<in> set (lineFindings ev patterns l index)" and "name f = str ''Email Address (PII)''"
  shows "f \<in> set (emailFindings l index)"
proof -
  from assms(1) have "(\<exists>p\<in>set patterns. f \<in> set (patternFindings ev l index p)) \<or> f \<in> set (emailFindings l index)"
    by (auto simp: lineFindings_def)
  then show ?thesis
  proof
    assume "\<exists>p\<in>set patterns. f \<in> set (patternFindings ev l index p)"
    then obtain p where p: "p \<in> set patterns" and "f \<in> set (patternFindings ev l index p)" by blast
    then have "name f = pattern.name p" by (simp add: patternFindings_props)
    with assms(2) registry_name_not_email [OF p] show ?thesis by simp
  qed
qed

lemma finding_on_line:
  assumes "f \<in> set (linesFindings jsMatchAll patterns (splitLines content) 0)" and "line f = Suc k"
  shows "k < length (splitLines content) \<and> f \<in> set (lineFindings jsMatchAll patterns (splitLines content ! k) k)"
proof -
  from assms(1) obtain j where j: "j < length (splitLines content)"
    and f: "f \<in> set (lineFindings jsMatchAll patterns (splitLines content ! j) j)"
    by (auto simp: set_linesFindings)
  from lineFindings_props [OF f] assms(2) have "j = k" by simp
  with j f show ?thesis by simp
qed

lemma line_findings_in_scan:
  assumes "k < length (splitLines content)"
    and "f \<in> set (lineFindings jsMatchAll patterns (splitLines content ! k) k)"
  shows "f \<in> set (linesFindings jsMatchAll patterns (splitLines content) 0)"
  using assms by (auto simp: set_linesFindings)

text \<open>
  Claim C3, amended. The scan returns a response, and on a line that is not a comment
  line an Email Address (PII) match becomes a finding (of severity low, at the match's
  line and start) exactly when the line is accepted: it contains none of \<open>mongodb\<close>,
  \<open>://\<close>, \<open>cluster\<close>, no credential text, and at least one indicator: \<open>email\<close>,
  \<open>from\<close> or \<open>to\<close> in any case followed by optional white space and \<open>:\<close> or
  \<open>=\<close>; \<open>mailto:\<close> or \<open>recipient\<close> in any case; or \<open>@\<close>, a provider name in any
  case and a dot anywhere on the line, in the matched address or elsewhere. Nothing is
  said here of a match on a comment line, nor of the value the finding stores.
\<close>

theorem email_match_reported_iff_line_accepted:
  assumes "k < length (splitLines content)"
    and "\<not> inComment (splitLines content ! k)"
    and "m \<in> set (matchAll False emailRegex (splitLines content ! k))"
  shows "\<exists>r. generateMockScanResponse now content = Inr r
       \<and> ((\<exists>f \<in> set (findings r).
              name f = str ''Email Address (PII)'' \<and> severity f = Low \<and> line f = Suc k
              \<and> start (position f) = Suc (fst m))
           \<longleftrightarrow> emailAccepted (splitLines content ! k))"
proof -
  let ?l = "splitLines content ! k"
  let ?fs = "linesFindings jsMatchAll patterns (splitLines content) 0"
  have core: "(\<exists>f \<in> set ?fs.
              name f = str ''Email Address (PII)'' \<and> severity f = Low \<and> line f = Suc k
              \<and> start (position f) = Suc (fst m))
           \<longleftrightarrow> emailAccepted ?l"
  proof
    assume "\<exists>f \<in> set ?fs.
              name f = str ''Email Address (PII)'' \<and> severity f = Low \<and> line f = Suc k
              \<and> start (position f) = Suc (fst m)"
    then obtain f where f: "f \<in> set ?fs"
      and n: "name f = str ''Email Address (PII)''" and l: "line f = Suc k"
      by blast
    from finding_on_line [OF f l] have "f \<in> set (lineFindings jsMatchAll patterns ?l k)" by simp
    from email_findings_of_line [OF this n] obtain m' where "f \<in> set (pushEmail ?l k m' [])"
      by (auto simp: emailFindings_def)
    then have "isLikelyRealEmail (matchText ?l m') ?l"
      by (auto simp: pushEmail_def split: if_splits)
    then show "emailAccepted ?l" by (simp only: isLikelyRealEmail_emailAccepted)
  next
    let ?f = "\<lparr>name = str ''Email Address (PII)'', value_str = matchText ?l m, severity = Low,
        line = k + 1,
        position = \<lparr>start = fst m + 1, end_pos = fst m + length (matchText ?l m) + 1\<rparr>,
        entropy = calculateEntropy (matchText ?l m)\<rparr>"
    assume "emailAccepted ?l"
    then have "isLikelyRealEmail (matchText ?l m) ?l" by (simp only: isLikelyRealEmail_emailAccepted)
    then have "pushEmail ?l k m [] = [?f]" by (simp add: pushEmail_def)
    with assms(3) have "?f \<in> set (emailFindings ?l k)"
      by (force simp: emailFindings_def)
    then have "?f \<in> set (lineFindings jsMatchAll patterns ?l k)" by (simp add: lineFindings_def)
    from line_findings_in_scan [OF assms(1) this] have "?f \<in> set ?fs" .
    moreover have "name ?f = str ''Email Address (PII)'' \<and> severity ?f = Low \<and> line ?f = Suc k
        \<and> start (position ?f) = Suc (fst m)"
      by simp
    ultimately show "\<exists>f \<in> set ?fs.
              name f = str ''Email Address (PII)'' \<and> severity f = Low \<and> line f = Suc k
              \<and> start (position f) = Suc (fst m)"
      by blast
  qed
  have "generateMockScanResponse now content = Inr (buildResponse now ?fs)"
    by (rule response_returned)
  moreover from core
  have "(\<exists>f \<in> set (findings (buildResponse now ?fs)).
              name f = str ''Email Address (PII)'' \<and> severity f = Low \<and> line f = Suc k
              \<and> start (position f) = Suc (fst m))
           \<longleftrightarrow> emailAccepted ?l"
    by (simp only: findings_buildResponse)
  ultimately show ?thesis by blast
qed

lemma email_match_to_line:
  "matchAll False emailRegex (str ''to: a@b.cc'') = [(4, 10)]"
  by (simp add: engine_eval regex_defs)

lemma email_accepted_to_line: "isLikelyRealEmail (str ''a@b.cc'') (str ''to: a@b.cc'')"
  by (simp add: isLikelyRealEmail_def engine_eval regex_defs)

lemma not_comment_to_line: "\<not> inComment (str ''to: a@b.cc'')"
  by (simp add: inComment_def trim_def engine_eval)

theorem email_match_reported_iff_line_accepted_witness:
  "\<not> inComment (splitLines (str ''to: a@b.cc'') ! 0)
   \<and> (4, 10) \<in> set (matchAll False emailRegex (splitLines (str ''to: a@b.cc'') ! 0))
   \<and> emailAccepted (str ''to: a@b.cc'')
   \<and> (\<exists>r. generateMockScanResponse (str ''T'') (str ''to: a@b.cc'') = Inr r
        \<and> (\<exists>f \<in> set (findings r).
              name f = str ''Email Address (PII)'' \<and> severity f = Low \<and> line f = 1
              \<and> start (position f) = 5))"
proof -
  have l: "splitLines (str ''to: a@b.cc'') = [str ''to: a@b.cc'']" by (simp add: str_def)
  have k: "0 < length (splitLines (str ''to: a@b.cc''))" by (simp add: l)
  have c: "\<not> inComment (splitLines (str ''to: a@b.cc'') ! 0)"
    by (simp add: l not_comment_to_line)
  have m: "(4, 10) \<in> set (matchAll False emailRegex (splitLines (str ''to: a@b.cc'') ! 0))"
    by (simp add: l email_match_to_line)
  have a: "emailAccepted (splitLines (str ''to: a@b.cc'') ! 0)"
    using email_accepted_to_line by (simp add: l isLikelyRealEmail_emailAccepted)
  from email_match_reported_iff_line_accepted [OF k c m, of "str ''T''"] a c m l
  show ?thesis by simp
qed

subsection \<open>The rule as the claim words it\<close>

lemma no_keyword_two_addresses:
  "\<not> occursIn (keywordAssignment ''email'') (str ''bob@corp.io x@gmail.com'')
   \<and> \<not> occursIn (sameTextAnyCase ''mailto:'') (str ''bob@corp.io x@gmail.com'')
   \<and> \<not> occursIn (keywordAssignment ''from'') (str ''bob@corp.io x@gmail.com'')
   \<and> \<not> occursIn (keywordAssignment ''to'') (str ''bob@corp.io x@gmail.com'')
   \<and> \<not> occursIn (sameTextAnyCase ''recipient'') (str ''bob@corp.io x@gmail.com'')"
  unfolding test_keyword [symmetric] test_literal [symmetric]
  by (simp add: engine_eval regex_defs)

text \<open>
  Claim C3, as stated, fails on the line \<open>bob@corp.io x@gmail.com\<close>, which is not a
  comment line: the scan returns the response with two findings, and the address
  \<open>bob@corp.io\<close> is reported, although the line has none of the keyword indicators and
  the domain of that address is not a provider's. The provider test of the source reads
  the line, where it finds \<open>@gmail.\<close> in the other address.
\<close>

theorem email_domain_of_other_address_counterexample:
  "generateMockScanResponse (str ''T'') (str ''bob@corp.io x@gmail.com'')
     = Inr (buildResponse (str ''T'')
              [\<lparr>name = str ''Email Address (PII)'', value_str = str ''bob@corp.io'', severity = Low,
                line = 1, position = \<lparr>start = 1, end_pos = 12\<rparr>,
                entropy = calculateEntropy (str ''bob@corp.io'')\<rparr>,
               \<lparr>name = str ''Email Address (PII)'', value_str = str ''x@gmail.com'', severity = Low,
                line = 1, position = \<lparr>start = 13, end_pos = 24\<rparr>,
                entropy = calculateEntropy (str ''x@gmail.com'')\<rparr>])
   \<and> \<not> inComment (str ''bob@corp.io x@gmail.com'')
   \<and> \<not> claimedEmailAccepted (str ''bob@corp.io'') (str ''bob@corp.io x@gmail.com'')"
proof -
  have "scanWith jsMatchAll patterns (str ''bob@corp.io x@gmail.com'')
     = Inr \<lparr>found =
              [\<lparr>name = str ''Email Address (PII)'', value_str = str ''bob@corp.io'', severity = Low,
                line = 1, position = \<lparr>start = 1, end_pos = 12\<rparr>,
                entropy = calculateEntropy (str ''bob@corp.io'')\<rparr>,
               \<lparr>name = str ''Email Address (PII)'', value_str = str ''x@gmail.com'', severity = Low,
                line = 1, position = \<lparr>start = 13, end_pos = 24\<rparr>,
                entropy = calculateEntropy (str ''x@gmail.com'')\<rparr>],
            console = []\<rparr>"
    by (simp add: scan_eval engine_eval regex_defs)
  then have "generateMockScanResponse (str ''T'') (str ''bob@corp.io x@gmail.com'')
     = Inr (buildResponse (str ''T'')
              [\<lparr>name = str ''Email Address (PII)'', value_str = str ''bob@corp.io'', severity = Low,
                line = 1, position = \<lparr>start = 1, end_pos = 12\<rparr>,
                entropy = calculateEntropy (str ''bob@corp.io'')\<rparr>,
               \<lparr>name = str ''Email Address (PII)'', value_str = str ''x@gmail.com'', severity = Low,
                line = 1, position = \<lparr>start = 13, end_pos = 24\<rparr>,
                entropy = calculateEntropy (str ''x@gmail.com'')\<rparr>])"
    by (simp add: response_eval)
  moreover have "\<not> inComment (str ''bob@corp.io x@gmail.com'')"
    by (simp add: inComment_def trim_def engine_eval)
  moreover have "\<not> list_ex (\<lambda>p. sameTextAnyCase p (addressDomain (str ''bob@corp.io'')))
               [''gmail'', ''yahoo'', ''outlook'', ''hotmail'', ''icloud'']"
    by (simp add: addressDomain_def sameTextAnyCase_def str_def upcase_def)
  then have "\<not> claimedEmailAccepted (str ''bob@corp.io'') (str ''bob@corp.io x@gmail.com'')"
    using no_keyword_two_addresses by (simp add: claimedEmailAccepted_def)
  ultimately show ?thesis by blast
qed

section \<open>The JWT Token detector\<close>

lemma jwt_class1: "inClass False (Pos (alnum @ [Ch CHR ''_'', Ch CHR ''-''])) = jwtChar"
  by (rule ext) (auto simp: inAtoms_def alnum_def jwtChar_def)

lemma jwt_class2:
  "inClass False (Pos (alnum @ [Ch CHR ''.'', Ch CHR ''_'', Ch CHR ''-''])) = (\<lambda>c. jwtChar c \<or> c = 46)"
  by (rule ext) (auto simp: inAtoms_def alnum_def jwtChar_def)

lemma accepts_jwt: "accepts False jwtRegex = jwtText"
proof (rule ext)
  fix w
  have unf: "accepts False jwtRegex w \<longleftrightarrow>
      (\<exists>u v. w = u @ v \<and> u = str ''eyJ''
         \<and> (\<exists>u' v'. v = u' @ v' \<and> (10 \<le> length u' \<and> list_all jwtChar u')
              \<and> (\<exists>u'' v''. v' = u'' @ v'' \<and> u'' = str ''.''
                   \<and> (10 \<le> length v'' \<and> list_all (\<lambda>c. jwtChar c \<or> c = 46) v''))))"
    unfolding jwtRegex_def cat.simps
    by (simp only: accepts.simps(3,6) accepts_Lit_exact jwt_class1 jwt_class2 option.case simp_thms)
  show "accepts False jwtRegex w = jwtText w"
    unfolding jwtText_def unf by blast
qed

lemma test_jwt: "regexTest False jwtRegex l \<longleftrightarrow> occursIn jwtText l"
proof -
  have "wordBoundaryFree jwtRegex" by (simp add: jwtRegex_def)
  from regexTest_occursIn [OF this] show ?thesis by (simp only: accepts_jwt)
qed

lemma jwt_pattern:
  "p \<in> set patterns \<Longrightarrow> pattern.name p = str ''JWT Token'' \<Longrightarrow>
     regex p = jwtRegex \<and> ignoreCase p = False \<and> pattern.severity p = Medium"
  by (auto simp: patterns_def str_def)

lemma jwt_pattern_in_registry:
  "\<lparr>pattern.name = str ''JWT Token'', regex = jwtRegex, ignoreCase = False, pattern.severity = Medium\<rparr> \<in> set patterns"
  by (simp add: patterns_def)

lemma jwt_findings_of_line:
  "(\<exists>f \<in> set (lineFindings jsMatchAll patterns l index). name f = str ''JWT Token'')
     \<longleftrightarrow> occursIn jwtText l"
proof
  assume "\<exists>f \<in> set (lineFindings jsMatchAll patterns l index). name f = str ''JWT Token''"
  then obtain f where f: "f \<in> set (lineFindings jsMatchAll patterns l index)"
    and n: "name f = str ''JWT Token''"
    by blast
  have "f \<notin> set (emailFindings l index)"
    using emailFindings_props [of f l index] n by (auto simp: str_def)
  with f obtain p where p: "p \<in> set patterns" and fp: "f \<in> set (patternFindings jsMatchAll l index p)"
    by (auto simp: lineFindings_def)
  from patternFindings_props [OF fp] n have "pattern.name p = str ''JWT Token''" by simp
  from jwt_pattern [OF p this] fp have "matchAll False jwtRegex l \<noteq> []"
    by (auto simp: patternFindings_def jsMatchAll_def)
  then show "occursIn jwtText l" by (simp add: matchAll_empty_iff test_jwt)
next
  let ?p = "\<lparr>pattern.name = str ''JWT Token'', regex = jwtRegex, ignoreCase = False, pattern.severity = Medium\<rparr>"
  assume "occursIn jwtText l"
  then have "matchAll False jwtRegex l \<noteq> []" by (simp add: matchAll_empty_iff test_jwt)
  then obtain m ms where ms: "matchAll False jwtRegex l = m # ms" by (cases "matchAll False jwtRegex l") auto
  obtain f where f: "pushMatch ?p l index m [] = [f]" and n: "name f = str ''JWT Token''"
    by (simp add: pushMatch_def)
  from ms f have "f \<in> set (patternFindings jsMatchAll l index ?p)"
    by (simp add: patternFindings_def jsMatchAll_def)
  with jwt_pattern_in_registry have "f \<in> set (lineFindings jsMatchAll patterns l index)"
    by (auto simp: lineFindings_def)
  with n show "\<exists>f \<in> set (lineFindings jsMatchAll patterns l index). name f = str ''JWT Token''"
    by blast
qed

lemma no_dot_no_jwt: "46 \<notin> set l \<Longrightarrow> \<not> occursIn jwtText l"
  by (auto simp: occursIn_def jwtText_def str_def)

text \<open>
  Claim C9, amended. The scan returns a response in which a line has a JWT Token finding
  exactly when it contains \<open>eyJ\<close>, at least ten characters of \<open>[A-Za-z0-9_-]\<close>, a
  dot and at least ten characters of \<open>[A-Za-z0-9._-]\<close>; every JWT Token finding has
  severity medium; a line without a dot has no JWT Token finding. A third segment is not
  required.
\<close>

theorem jwt_finding_iff_jwt_text:
  "\<exists>r. generateMockScanResponse now content = Inr r
     \<and> ((\<exists>f \<in> set (findings r). name f = str ''JWT Token'' \<and> line f = Suc k)
          \<longleftrightarrow> (k < length (splitLines content) \<and> occursIn jwtText (splitLines content ! k)))
     \<and> (\<forall>f \<in> set (findings r). name f = str ''JWT Token'' \<longrightarrow> severity f = Medium)
     \<and> (k < length (splitLines content) \<and> 46 \<notin> set (splitLines content ! k) \<longrightarrow>
          \<not> (\<exists>f \<in> set (findings r). name f = str ''JWT Token'' \<and> line f = Suc k))"
proof -
  let ?fs = "linesFindings jsMatchAll patterns (splitLines content) 0"
  have iff: "(\<exists>f \<in> set ?fs. name f = str ''JWT Token'' \<and> line f = Suc k)
      \<longleftrightarrow> (k < length (splitLines content) \<and> occursIn jwtText (splitLines content ! k))"
  proof
    assume "\<exists>f \<in> set ?fs. name f = str ''JWT Token'' \<and> line f = Suc k"
    then obtain f where f: "f \<in> set ?fs"
      and n: "name f = str ''JWT Token''" and l: "line f = Suc k"
      by blast
    from finding_on_line [OF f l] n
    show "k < length (splitLines content) \<and> occursIn jwtText (splitLines content ! k)"
      using jwt_findings_of_line [of "splitLines content ! k" k] by blast
  next
    assume a: "k < length (splitLines content) \<and> occursIn jwtText (splitLines content ! k)"
    then obtain f where f: "f \<in> set (lineFindings jsMatchAll patterns (splitLines content ! k) k)"
      and n: "name f = str ''JWT Token''"
      using jwt_findings_of_line [of "splitLines content ! k" k] by blast
    from a line_findings_in_scan [OF _ f] have "f \<in> set ?fs"
      by simp
    with n lineFindings_props [OF f]
    show "\<exists>f \<in> set ?fs. name f = str ''JWT Token'' \<and> line f = Suc k"
      by blast
  qed
  have sev: "severity f = Medium"
    if f: "f \<in> set ?fs" and n: "name f = str ''JWT Token''" for f
  proof -
    from f obtain j where fj: "f \<in> set (lineFindings jsMatchAll patterns (splitLines content ! j) j)"
      by (auto simp: set_linesFindings)
    have "f \<notin> set (emailFindings (splitLines content ! j) j)"
      using emailFindings_props [of f "splitLines content ! j" j] n by (auto simp: str_def)
    with fj obtain p where p: "p \<in> set patterns"
      and fp: "f \<in> set (patternFindings jsMatchAll (splitLines content ! j) j p)"
      by (auto simp: lineFindings_def)
    from patternFindings_props [OF fp] n jwt_pattern [OF p] show ?thesis by simp
  qed
  from iff sev no_dot_no_jwt [of "splitLines content ! k"]
  have "((\<exists>f \<in> set ?fs. name f = str ''JWT Token'' \<and> line f = Suc k)
          \<longleftrightarrow> (k < length (splitLines content) \<and> occursIn jwtText (splitLines content ! k)))
     \<and> (\<forall>f \<in> set ?fs. name f = str ''JWT Token'' \<longrightarrow> severity f = Medium)
     \<and> (k < length (splitLines content) \<and> 46 \<notin> set (splitLines content ! k) \<longrightarrow>
          \<not> (\<exists>f \<in> set ?fs. name f = str ''JWT Token'' \<and> line f = Suc k))"
    by blast
  then have "((\<exists>f \<in> set (findings (buildResponse now ?fs)). name f = str ''JWT Token'' \<and> line f = Suc k)
          \<longleftrightarrow> (k < length (splitLines content) \<and> occursIn jwtText (splitLines content ! k)))
     \<and> (\<forall>f \<in> set (findings (buildResponse now ?fs)). name f = str ''JWT Token'' \<longrightarrow> severity f = Medium)
     \<and> (k < length (splitLines content) \<and> 46 \<notin> set (splitLines content ! k) \<longrightarrow>
          \<not> (\<exists>f \<in> set (findings (buildResponse now ?fs)). name f = str ''JWT Token'' \<and> line f = Suc k))"
    unfolding findings_buildResponse .
  with response_returned [of now content] show ?thesis by blast
qed

text \<open>
  Claim C9, as stated, fails on the token \<open>eyJhbGciOiJIU.eyJzdWIiOiI\<close>: it has one
  dot, so two dot-separated segments, and the scan returns the response that reports it
  as a JWT Token.
\<close>

theorem jwt_two_segments_counterexample:
  "count_list (str ''eyJhbGciOiJIU.eyJzdWIiOiI'') 46 = 1
   \<and> generateMockScanResponse (str ''T'') (str ''eyJhbGciOiJIU.eyJzdWIiOiI'')
     = Inr (buildResponse (str ''T'')
              [\<lparr>name = str ''JWT Token'', value_str = str ''eyJhbGciOiJIU.eyJzdWIiOiI'',
                severity = Medium, line = 1, position = \<lparr>start = 1, end_pos = 26\<rparr>,
                entropy = calculateEntropy (str ''eyJhbGciOiJIU.eyJzdWIiOiI'')\<rparr>])"
proof -
  have "scanWith jsMatchAll patterns (str ''eyJhbGciOiJIU.eyJzdWIiOiI'')
     = Inr \<lparr>found =
              [\<lparr>name = str ''JWT Token'', value_str = str ''eyJhbGciOiJIU.eyJzdWIiOiI'',
                severity = Medium, line = 1, position = \<lparr>start = 1, end_pos = 26\<rparr>,
                entropy = calculateEntropy (str ''eyJhbGciOiJIU.eyJzdWIiOiI'')\<rparr>],
            console = []\<rparr>"
    by (simp add: scan_eval engine_eval regex_defs)
  then have "generateMockScanResponse (str ''T'') (str ''eyJhbGciOiJIU.eyJzdWIiOiI'')
     = Inr (buildResponse (str ''T'')
              [\<lparr>name = str ''JWT Token'', value_str = str ''eyJhbGciOiJIU.eyJzdWIiOiI'',
                severity = Medium, line = 1, position = \<lparr>start = 1, end_pos = 26\<rparr>,
                entropy = calculateEntropy (str ''eyJhbGciOiJIU.eyJzdWIiOiI'')\<rparr>])"
    by (simp add: response_eval)
  moreover have "count_list (str ''eyJhbGciOiJIU.eyJzdWIiOiI'') 46 = 1"
    by (simp add: str_def)
  ultimately show ?thesis by blast
qed

theorem jwt_finding_iff_jwt_text_witness:
  "occursIn jwtText (str ''eyJhbGciOiJIU.eyJzdWIiOiI'')
   \<and> (\<exists>r. generateMockScanResponse (str ''T'') (str ''eyJhbGciOiJIU.eyJzdWIiOiI'') = Inr r
        \<and> (\<exists>f \<in> set (findings r). name f = str ''JWT Token'' \<and> line f = 1 \<and> severity f = Medium))"
proof -
  have l: "splitLines (str ''eyJhbGciOiJIU.eyJzdWIiOiI'') = [str ''eyJhbGciOiJIU.eyJzdWIiOiI'']"
    by (simp add: str_def)
  have "jwtText (str ''eyJhbGciOiJIU.eyJzdWIiOiI'')"
    unfolding jwtText_def
    by (intro exI [of _ "str ''hbGciOiJIU''"] exI [of _ "str ''eyJzdWIiOiI''"])
      (simp add: str_def jwtChar_def)
  then have o: "occursIn jwtText (str ''eyJhbGciOiJIU.eyJzdWIiOiI'')"
    unfolding occursIn_def
    by (intro exI [of _ "[]"] exI [of _ "str ''eyJhbGciOiJIU.eyJzdWIiOiI''"]) simp
  from jwt_finding_iff_jwt_text [of "str ''T''" "str ''eyJhbGciOiJIU.eyJzdWIiOiI''" 0]
  obtain r where r: "generateMockScanResponse (str ''T'') (str ''eyJhbGciOiJIU.eyJzdWIiOiI'') = Inr r"
    and i: "(\<exists>f \<in> set (findings r). name f = str ''JWT Token'' \<and> line f = Suc 0)
          \<longleftrightarrow> (0 < length (splitLines (str ''eyJhbGciOiJIU.eyJzdWIiOiI''))
               \<and> occursIn jwtText (splitLines (str ''eyJhbGciOiJIU.eyJzdWIiOiI'') ! 0))"
    and s: "\<forall>f \<in> set (findings r). name f = str ''JWT Token'' \<longrightarrow> severity f = Medium"
    by blast
  from i o l have "\<exists>f \<in> set (findings r). name f = str ''JWT Token'' \<and> line f = Suc 0" by simp
  with s have "\<exists>f \<in> set (findings r). name f = str ''JWT Token'' \<and> line f = 1 \<and> severity f = Medium"
    by auto
  with o r show ?thesis by blast
qed

end
